theory Spec2Isabelle
  imports Main "HOL-Library.AList" "HOL-Library.Multiset"
begin

section \<open>Python strings and dictionaries\<close>

text \<open>
  A Python \<open>str\<close> is a sequence of code points; it is modelled as a \<open>string\<close>
  (a list of characters). \<open>str.lower\<close> is a library function that may change the
  length of a string outside ASCII, so every operation of the program that calls it
  takes it as the parameter \<open>lower\<close>; \<open>ascii_lower\<close> below is the instance
  used on concrete inputs.
\<close>

definition ascii_lower_char :: "char \<Rightarrow> char" where
  "ascii_lower_char c =
     (case map_of (zip ''ABCDEFGHIJKLMNOPQRSTUVWXYZ'' ''abcdefghijklmnopqrstuvwxyz'') c of
        None \<Rightarrow> c
      | Some d \<Rightarrow> d)"

definition ascii_lower :: "string \<Rightarrow> string" where
  "ascii_lower s = map ascii_lower_char s"

text \<open>\<open>sub in s\<close>: the string \<open>sub\<close> occurs in \<open>s\<close> as a contiguous block.\<close>

fun py_in :: "string \<Rightarrow> string \<Rightarrow> bool" where
  "py_in sub [] = (sub = [])"
| "py_in sub (c # cs) = (take (length sub) (c # cs) = sub \<or> py_in sub cs)"

text \<open>
  \<open>s.find(sub)\<close>: the lowest index at which \<open>sub\<close> occurs in \<open>s\<close>, and \<open>-1\<close>
  when it does not occur. \<open>find_from\<close> scans the suffix that starts at index \<open>i\<close>.
\<close>

fun find_from :: "string \<Rightarrow> string \<Rightarrow> nat \<Rightarrow> int" where
  "find_from sub [] i = (if sub = [] then int i else - 1)"
| "find_from sub (c # cs) i =
     (if take (length sub) (c # cs) = sub then int i else find_from sub cs (Suc i))"

definition py_find :: "string \<Rightarrow> string \<Rightarrow> int" where
  "py_find s sub = find_from sub s 0"

text \<open>
  \<open>s[a:b]\<close> with Python's rules: a negative bound counts from the end, and both
  bounds are clamped to \<open>0 .. len(s)\<close>, so a slice never indexes out of range.
\<close>

definition slice_bound :: "nat \<Rightarrow> int \<Rightarrow> nat" where
  "slice_bound n i = (if i < 0 then nat (max 0 (int n + i)) else min n (nat i))"

definition py_slice :: "string \<Rightarrow> int \<Rightarrow> int \<Rightarrow> string" where
  "py_slice s a b =
     (let lo = slice_bound (length s) a; hi = slice_bound (length s) b
      in take (hi - lo) (drop lo s))"

text \<open>
  A \<open>dict\<close> keeps its keys in insertion order and holds each key once. It is an
  association list; \<open>d[k] = v\<close> is \<open>AList.update k v d\<close>, which overwrites the
  entry of \<open>k\<close> in place when there is one and appends otherwise.
\<close>

type_synonym ('k, 'v) dict = "('k \<times> 'v) list"

section \<open>websearch.py: SearchEngine.search\<close>

text \<open>
  Both branches of the loop body build the snippet the same way from the index
  \<open>start_index\<close> that \<open>find\<close> returned and the length of the query.
\<close>

definition make_snippet :: "string \<Rightarrow> int \<Rightarrow> string \<Rightarrow> string" where
  "make_snippet content start_index query =
     (let end_index = start_index + int (length query);
          snippet_start = max 0 (start_index - 50);
          snippet_end = min (int (length content)) (end_index + 100)
      in ''...'' @ py_slice content snippet_start snippet_end @ ''...'')"

fun search_loop ::
  "(string \<Rightarrow> string) \<Rightarrow> string \<Rightarrow> bool \<Rightarrow> (string, string) dict \<Rightarrow>
   (string, string) dict \<Rightarrow> (string, string) dict" where
  "search_loop lower query case_sensitive [] results = results"
| "search_loop lower query case_sensitive ((url, content) # rest) results =
     (if \<not> case_sensitive then
        (let content_lower = lower content in
         if py_in query content_lower then
           (let start_index = py_find content_lower query;
                snippet = make_snippet content start_index query
            in search_loop lower query case_sensitive rest (AList.update url snippet results))
         else search_loop lower query case_sensitive rest results)
      else
        (if py_in query content then
           (let start_index = py_find content query;
                snippet = make_snippet content start_index query
            in search_loop lower query case_sensitive rest (AList.update url snippet results))
         else search_loop lower query case_sensitive rest results))"

definition search ::
  "(string \<Rightarrow> string) \<Rightarrow> (string, string) dict \<Rightarrow> string \<Rightarrow> bool \<Rightarrow> (string, string) dict" where
  "search lower data query case_sensitive =
     (let query = (if \<not> case_sensitive then lower query else query)
      in search_loop lower query case_sensitive data [])"


subsection \<open>What the search result is compared with\<close>

text \<open>
  \<open>occurs_at sub s k\<close>: the string \<open>sub\<close> stands in \<open>s\<close> at index \<open>k\<close>;
  \<open>first_match sub s k\<close>: \<open>k\<close> is the first such index. \<open>snippet_window\<close> is
  the window of the specification, from \<open>max(0, k - 50)\<close> (truncating subtraction on
  \<open>nat\<close>) to \<open>min(len(content), k + len(query) + 100)\<close>, between two ellipsis
  markers. \<open>fold_case\<close> is the text a comparison is made on: the string itself in a
  case-sensitive search, its lower-case form otherwise.
\<close>

definition occurs_at :: "string \<Rightarrow> string \<Rightarrow> nat \<Rightarrow> bool" where
  "occurs_at sub s k = (k \<le> length s \<and> take (length sub) (drop k s) = sub)"

definition first_match :: "string \<Rightarrow> string \<Rightarrow> nat \<Rightarrow> bool" where
  "first_match sub s k = (occurs_at sub s k \<and> (\<forall>j<k. \<not> occurs_at sub s j))"

definition snippet_window :: "string \<Rightarrow> nat \<Rightarrow> nat \<Rightarrow> string" where
  "snippet_window content k qlen =
     ''...'' @ take (min (length content) (k + qlen + 100) - (k - 50)) (drop (k - 50) content) @ ''...''"

definition fold_case :: "(string \<Rightarrow> string) \<Rightarrow> bool \<Rightarrow> string \<Rightarrow> string" where
  "fold_case lower case_sensitive s = (if case_sensitive then s else lower s)"

subsection \<open>Substring search\<close>

lemma occurs_at_Nil: "occurs_at sub [] k = (sub = [] \<and> k = 0)"
  by (auto simp: occurs_at_def)

lemma occurs_at_Cons:
  "occurs_at sub (c # cs) k =
     (case k of 0 \<Rightarrow> take (length sub) (c # cs) = sub | Suc j \<Rightarrow> occurs_at sub cs j)"
  by (auto simp: occurs_at_def split: nat.splits)

lemma py_in_occurs: "py_in sub s = (\<exists>k. occurs_at sub s k)"
proof (induction s)
  case Nil
  show ?case by (simp add: occurs_at_Nil)
next
  case (Cons c cs)
  show ?case
  proof
    assume "py_in sub (c # cs)"
    then consider "take (length sub) (c # cs) = sub" | "py_in sub cs" by auto
    then show "\<exists>k. occurs_at sub (c # cs) k"
    proof cases
      case 1
      then have "occurs_at sub (c # cs) 0" by (simp add: occurs_at_Cons)
      then show ?thesis ..
    next
      case 2
      with Cons obtain j where "occurs_at sub cs j" by auto
      then have "occurs_at sub (c # cs) (Suc j)" by (simp add: occurs_at_Cons)
      then show ?thesis ..
    qed
  next
    assume "\<exists>k. occurs_at sub (c # cs) k"
    then obtain k where k: "occurs_at sub (c # cs) k" ..
    show "py_in sub (c # cs)"
    proof (cases k)
      case 0
      with k show ?thesis by (simp add: occurs_at_Cons)
    next
      case (Suc j)
      with k have "occurs_at sub cs j" by (simp add: occurs_at_Cons)
      with Cons show ?thesis by auto
    qed
  qed
qed

lemma find_from_first:
  "py_in sub s \<Longrightarrow> \<exists>k. find_from sub s i = int (i + k) \<and> first_match sub s k"
proof (induction s arbitrary: i)
  case Nil
  then show ?case by (auto simp: first_match_def occurs_at_Nil)
next
  case (Cons c cs)
  show ?case
  proof (cases "take (length sub) (c # cs) = sub")
    case True
    then have "first_match sub (c # cs) 0"
      by (simp add: first_match_def occurs_at_Cons)
    with True show ?thesis by (intro exI[of _ 0]) simp
  next
    case False
    with Cons.prems have "py_in sub cs" by simp
    from Cons.IH[OF this, of "Suc i"] obtain k where
      k: "find_from sub cs (Suc i) = int (Suc i + k)" "first_match sub cs k" by blast
    have "first_match sub (c # cs) (Suc k)"
      unfolding first_match_def
    proof (intro conjI allI impI)
      show "occurs_at sub (c # cs) (Suc k)"
        using k(2) by (simp add: first_match_def occurs_at_Cons)
    next
      fix j assume "j < Suc k"
      then show "\<not> occurs_at sub (c # cs) j"
        using k(2) False by (cases j) (auto simp: first_match_def occurs_at_Cons)
    qed
    with False k(1) show ?thesis by (intro exI[of _ "Suc k"]) simp
  qed
qed

lemma find_from_absent: "\<not> py_in sub s \<Longrightarrow> find_from sub s i = - 1"
  by (induction s arbitrary: i) auto

lemma first_match_unique: "first_match sub s k \<Longrightarrow> first_match sub s k' \<Longrightarrow> k = k'"
  unfolding first_match_def by (metis linorder_neqE_nat)

lemma py_find_first: "first_match sub s k \<Longrightarrow> py_find s sub = int k"
proof -
  assume fm: "first_match sub s k"
  then have "py_in sub s" by (auto simp: py_in_occurs first_match_def)
  from find_from_first[OF this, of 0] obtain k' where
    "find_from sub s 0 = int k'" "first_match sub s k'" by auto
  with fm first_match_unique show ?thesis by (auto simp: py_find_def)
qed

lemma make_snippet_window:
  "make_snippet content (int k) query = snippet_window content k (length query)"
proof -
  have lo: "slice_bound (length content) (max 0 (int k - 50)) = min (length content) (k - 50)"
    by (auto simp: slice_bound_def max_def)
  have hi: "slice_bound (length content) (min (int (length content)) (int k + int (length query) + 100))
       = min (length content) (k + length query + 100)"
    by (auto simp: slice_bound_def min_def)
  have "take (min (length content) (k + length query + 100) - min (length content) (k - 50))
          (drop (min (length content) (k - 50)) content)
      = take (min (length content) (k + length query + 100) - (k - 50)) (drop (k - 50) content)"
    by (cases "k - 50 \<le> length content") (simp_all add: min_def)
  then show ?thesis
    by (simp add: make_snippet_def snippet_window_def py_slice_def Let_def lo hi)
qed


subsection \<open>The search loop\<close>

definition entry_snippet :: "(string \<Rightarrow> string) \<Rightarrow> bool \<Rightarrow> string \<Rightarrow> string \<Rightarrow> string" where
  "entry_snippet lower case_sensitive query content =
     make_snippet content (py_find (fold_case lower case_sensitive content) query) query"

lemma search_loop_Cons:
  "search_loop lower query cs ((url, content) # rest) results =
     search_loop lower query cs rest
       (if py_in query (fold_case lower cs content)
        then AList.update url (entry_snippet lower cs query content) results
        else results)"
  by (simp add: fold_case_def entry_snippet_def Let_def)

lemma search_loop_other:
  "url \<notin> fst ` set data \<Longrightarrow>
   map_of (search_loop lower query cs data results) url = map_of results url"
proof (induction data arbitrary: results)
  case Nil
  show ?case by simp
next
  case (Cons p data)
  obtain u c where p: "p = (u, c)" by (cases p)
  from Cons.prems p have ne: "u \<noteq> url" and notin: "url \<notin> fst ` set data" by auto
  show ?case
    unfolding p search_loop_Cons
    by (simp add: Cons.IH[OF notin] update_conv' ne ne[symmetric] del: search_loop.simps)
qed

lemma search_loop_hit:
  "distinct (map fst data) \<Longrightarrow> (url, content) \<in> set data \<Longrightarrow>
   py_in query (fold_case lower cs content) \<Longrightarrow>
   map_of (search_loop lower query cs data results) url =
     Some (entry_snippet lower cs query content)"
proof (induction data arbitrary: results)
  case Nil
  then show ?case by simp
next
  case (Cons p data)
  obtain u c where p: "p = (u, c)" by (cases p)
  show ?case
  proof (cases "(url, content) = p")
    case True
    with p have uc: "u = url" "c = content" by auto
    from Cons.prems(1) p uc have notin: "url \<notin> fst ` set data" by auto
    show ?thesis
      unfolding p search_loop_Cons uc
      by (simp add: search_loop_other[OF notin] update_conv' Cons.prems(3) del: search_loop.simps)
  next
    case False
    with Cons.prems(2) have mem: "(url, content) \<in> set data" by auto
    from Cons.prems(1) have d: "distinct (map fst data)" by simp
    show ?thesis
      unfolding p search_loop_Cons
      by (rule Cons.IH[OF d mem Cons.prems(3)])
  qed
qed

lemma search_loop_distinct:
  "distinct (map fst results) \<Longrightarrow> distinct (map fst (search_loop lower query cs data results))"
proof (induction data arbitrary: results)
  case Nil
  then show ?case by simp
next
  case (Cons p data)
  obtain u c where p: "p = (u, c)" by (cases p)
  show ?case
    unfolding p search_loop_Cons
    by (rule Cons.IH) (simp add: Cons.prems distinct_update)
qed

lemma update_set_subset: "set (AList.update k v al) \<subseteq> insert (k, v) (set al)"
  by (induction al) auto

lemma search_loop_entries:
  "(url, snip) \<in> set (search_loop lower query cs data results) \<Longrightarrow>
   (url, snip) \<in> set results \<or>
   (\<exists>content. (url, content) \<in> set data \<and> py_in query (fold_case lower cs content) \<and>
      snip = entry_snippet lower cs query content)"
proof (induction data arbitrary: results)
  case Nil
  then show ?case by simp
next
  case (Cons p data)
  obtain u c where p: "p = (u, c)" by (cases p)
  let ?res = "if py_in query (fold_case lower cs c)
        then AList.update u (entry_snippet lower cs query c) results else results"
  from Cons.prems have "(url, snip) \<in> set (search_loop lower query cs data ?res)"
    unfolding p search_loop_Cons .
  from Cons.IH[OF this] show ?case
  proof
    assume a: "(url, snip) \<in> set ?res"
    show ?thesis
    proof (cases "py_in query (fold_case lower cs c)")
      case False
      with a show ?thesis by simp
    next
      case True
      with a have "(url, snip) \<in> set (AList.update u (entry_snippet lower cs query c) results)"
        by simp
      then have "(url, snip) = (u, entry_snippet lower cs query c) \<or> (url, snip) \<in> set results"
        using update_set_subset by fastforce
      then show ?thesis using True p by auto
    qed
  next
    assume "\<exists>content. (url, content) \<in> set data \<and> py_in query (fold_case lower cs content) \<and>
      snip = entry_snippet lower cs query content"
    then show ?thesis by auto
  qed
qed

lemma entry_snippet_window:
  "first_match query (fold_case lower cs content) k \<Longrightarrow>
   entry_snippet lower cs query content = snippet_window content k (length query)"
  by (simp add: entry_snippet_def py_find_first make_snippet_window)

lemma py_in_first_match: "py_in sub s \<Longrightarrow> \<exists>k. first_match sub s k"
  using find_from_first[of sub s 0] by blast


lemma search_eq_loop:
  "search lower data query cs = search_loop lower (fold_case lower cs query) cs data []"
  by (simp add: search_def fold_case_def)

lemma one_entry_for_key:
  "distinct (map fst xs) \<Longrightarrow> map_of xs k = Some v \<Longrightarrow>
   length (filter (\<lambda>p. fst p = k) xs) = 1"
proof (induction xs)
  case Nil
  then show ?case by simp
next
  case (Cons p xs)
  show ?case
  proof (cases "fst p = k")
    case True
    with Cons.prems(1) have "k \<notin> fst ` set xs" by auto
    then have "filter (\<lambda>p. fst p = k) xs = []"
      by (auto simp: filter_empty_conv)
    with True show ?thesis by simp
  next
    case False
    with Cons.prems(2) have "map_of xs k = Some v" by (cases p) (auto split: if_splits)
    with Cons.IH Cons.prems(1) False show ?thesis by simp
  qed
qed

text \<open>
  Claim C7. For every record of the dictionary whose content contains the query (both
  case-folded unless the search is case-sensitive), the result holds exactly one entry
  for the record's URL, and its snippet is the content from \<open>max(0, k - 50)\<close> to
  \<open>min(len(content), k + len(query) + 100)\<close> between ellipsis markers, where \<open>k\<close>
  is the index of the first match. The dictionary's keys are distinct, as a Python
  \<open>dict\<close>'s are. For content \<open>abcXYZdef\<close> and query \<open>XYZ\<close> the window is the
  whole string.
\<close>

theorem search_snippet_window:
  assumes keys: "distinct (map fst data)"
    and stored: "(url, content) \<in> set data"
    and hit: "py_in (fold_case lower case_sensitive query) (fold_case lower case_sensitive content)"
  shows "\<exists>k. first_match (fold_case lower case_sensitive query)
                (fold_case lower case_sensitive content) k \<and>
             map_of (search lower data query case_sensitive) url =
               Some (snippet_window content k (length (fold_case lower case_sensitive query))) \<and>
             length (filter (\<lambda>p. fst p = url) (search lower data query case_sensitive)) = 1"
proof -
  let ?q = "fold_case lower case_sensitive query"
  let ?res = "search lower data query case_sensitive"
  from py_in_first_match[OF hit] obtain k where
    k: "first_match ?q (fold_case lower case_sensitive content) k" ..
  have m: "map_of ?res url = Some (snippet_window content k (length ?q))"
    unfolding search_eq_loop
    using search_loop_hit[OF keys stored hit] entry_snippet_window[OF k] by simp
  have "distinct (map fst ?res)"
    unfolding search_eq_loop by (rule search_loop_distinct) simp
  from one_entry_for_key[OF this m] k m show ?thesis by blast
qed

theorem search_snippet_window_witness:
  "distinct (map fst [(''http://e.com/'', ''abcXYZdef'')]) \<and>
   (''http://e.com/'', ''abcXYZdef'') \<in> set [(''http://e.com/'', ''abcXYZdef'')] \<and>
   py_in (fold_case ascii_lower False ''XYZ'') (fold_case ascii_lower False ''abcXYZdef'') \<and>
   (\<exists>k. first_match (fold_case ascii_lower False ''XYZ'') (fold_case ascii_lower False ''abcXYZdef'') k \<and>
     map_of (search ascii_lower [(''http://e.com/'', ''abcXYZdef'')] ''XYZ'' False) ''http://e.com/'' =
       Some (snippet_window ''abcXYZdef'' k (length (fold_case ascii_lower False ''XYZ''))) \<and>
     length (filter (\<lambda>p. fst p = ''http://e.com/'')
       (search ascii_lower [(''http://e.com/'', ''abcXYZdef'')] ''XYZ'' False)) = 1) \<and>
   search ascii_lower [(''http://e.com/'', ''abcXYZdef'')] ''XYZ'' False =
     [(''http://e.com/'', ''...abcXYZdef...'')]"
proof -
  have d: "distinct (map fst [(''http://e.com/'', ''abcXYZdef'')])" by simp
  have s: "(''http://e.com/'', ''abcXYZdef'') \<in> set [(''http://e.com/'', ''abcXYZdef'')]" by simp
  have h: "py_in (fold_case ascii_lower False ''XYZ'') (fold_case ascii_lower False ''abcXYZdef'')"
    by (simp add: fold_case_def ascii_lower_def ascii_lower_char_def)
  have r: "search ascii_lower [(''http://e.com/'', ''abcXYZdef'')] ''XYZ'' False =
     [(''http://e.com/'', ''...abcXYZdef...'')]"
    by (simp add: search_def ascii_lower_def ascii_lower_char_def py_find_def make_snippet_def
        py_slice_def slice_bound_def)
  from search_snippet_window[OF d s h] d s h r show ?thesis by blast
qed

text \<open>
  Claim C10. The result of a search holds at most one entry per URL, also when the query
  occurs several times in a record's content, and every entry's snippet is the window
  around the first occurrence of the query in the content of a stored record of that URL.
\<close>

theorem search_one_result_per_url:
  "distinct (map fst (search lower data query case_sensitive)) \<and>
   (\<forall>(url, snip) \<in> set (search lower data query case_sensitive).
      \<exists>content k. (url, content) \<in> set data \<and>
        first_match (fold_case lower case_sensitive query)
          (fold_case lower case_sensitive content) k \<and>
        snip = snippet_window content k (length (fold_case lower case_sensitive query)))"
proof (intro conjI ballI)
  show "distinct (map fst (search lower data query case_sensitive))"
    unfolding search_eq_loop by (rule search_loop_distinct) simp
next
  fix p assume p: "p \<in> set (search lower data query case_sensitive)"
  obtain url snip where us: "p = (url, snip)" by (cases p)
  let ?q = "fold_case lower case_sensitive query"
  from p us have "(url, snip) \<in> set (search_loop lower ?q case_sensitive data [])"
    by (simp add: search_eq_loop)
  from search_loop_entries[OF this] obtain content where
    c: "(url, content) \<in> set data" "py_in ?q (fold_case lower case_sensitive content)"
       "snip = entry_snippet lower case_sensitive ?q content" by auto
  from py_in_first_match[OF c(2)] obtain k where
    k: "first_match ?q (fold_case lower case_sensitive content) k" ..
  with c entry_snippet_window[OF k] us
  show "case p of (url, snip) \<Rightarrow> \<exists>content k. (url, content) \<in> set data \<and>
        first_match ?q (fold_case lower case_sensitive content) k \<and>
        snip = snippet_window content k (length ?q)"
    by auto
qed

theorem search_one_result_per_url_witness:
  "search ascii_lower [(''http://e.com/a'', ''spam Spam SPAM''), (''http://e.com/b'', ''eggs'')]
      ''spam'' False = [(''http://e.com/a'', ''...spam Spam SPAM...'')] \<and>
   distinct (map fst (search ascii_lower
      [(''http://e.com/a'', ''spam Spam SPAM''), (''http://e.com/b'', ''eggs'')] ''spam'' False)) \<and>
   first_match ''spam'' ''spam spam spam'' 0"
proof -
  have r: "search ascii_lower [(''http://e.com/a'', ''spam Spam SPAM''), (''http://e.com/b'', ''eggs'')]
      ''spam'' False = [(''http://e.com/a'', ''...spam Spam SPAM...'')]"
    by (simp add: search_def ascii_lower_def ascii_lower_char_def py_find_def make_snippet_def
        py_slice_def slice_bound_def)
  have f: "first_match ''spam'' ''spam spam spam'' 0"
    by (simp add: first_match_def occurs_at_def)
  from search_one_result_per_url[of ascii_lower
      "[(''http://e.com/a'', ''spam Spam SPAM''), (''http://e.com/b'', ''eggs'')]" "''spam''" False]
    r f show ?thesis by simp
qed

section \<open>The collaborators of the crawlers\<close>

text \<open>
  The programs reach the network through \<open>requests\<close>, parse markup with
  \<open>BeautifulSoup\<close> and take URLs apart with \<open>urllib.parse\<close>. None of the three
  is code of the repository, so each is a field of the environment \<open>env\<close>, and
  every theorem holds for every environment.

  \<^item> \<open>http_get n url\<close> is the outcome of the \<open>n\<close>-th call of \<open>requests.get\<close>
    of a run, on \<open>url\<close>: the exception \<open>RequestException\<close> (time-out, connection
    error, unsupported scheme) or a response with its status code and body. The
    answer may depend on \<open>n\<close>: the same URL can answer differently when it is
    requested again.
  \<^item> \<open>html_parser body\<close> is the tree \<open>BeautifulSoup(body, 'html.parser')\<close>.
  \<^item> \<open>urlparse\<close> and \<open>urljoin\<close> return \<open>None\<close> where the library raises
    \<open>ValueError\<close>.
  \<^item> \<open>isspace\<close> tells the characters that \<open>str.strip\<close> removes.
  \<^item> \<open>sleep secs\<close> is \<open>time.sleep(secs)\<close>: \<open>None\<close> when the call returns, and the
    exception when it raises, as it does for a negative number and for NaN. A
    Python float is \<open>Finite m k\<close>, the number \<open>m\<close> times two to the power \<open>k\<close>, an
    infinity or NaN.
\<close>

datatype http_result = RequestException | Response int string

datatype py_error = ValueError | OverflowError

datatype py_float = Finite int int | PosInf | NegInf | NaN

datatype str_kind = NavigableString | CData | Comment | Declaration

datatype node =
    Str str_kind string
  | Tag string "(string \<times> string) list" "node list"

record parsed_url =
  scheme :: string
  netloc :: string
  path :: string

record env =
  http_get :: "nat \<Rightarrow> string \<Rightarrow> http_result"
  html_parser :: "string \<Rightarrow> node"
  urlparse :: "string \<Rightarrow> parsed_url option"
  urljoin :: "string \<Rightarrow> string \<Rightarrow> string option"
  isspace :: "char \<Rightarrow> bool"
  sleep :: "py_float \<Rightarrow> py_error option"

subsection \<open>The document tree\<close>

text \<open>
  \<open>descendants\<close> lists the nodes below a node in document order, as
  \<open>find_all\<close> visits them. \<open>find_all_tags names\<close> is \<open>find_all(names)\<close>: the
  tags below the node whose name is one of \<open>names\<close>.
\<close>

fun descendants :: "node \<Rightarrow> node list" where
  "descendants (Str k s) = []"
| "descendants (Tag name attrs children) = concat (map (\<lambda>c. c # descendants c) children)"

fun tag_named :: "string list \<Rightarrow> node \<Rightarrow> bool" where
  "tag_named names (Str k s) = False"
| "tag_named names (Tag name attrs children) = (name \<in> set names)"

definition find_all_tags :: "string list \<Rightarrow> node \<Rightarrow> node list" where
  "find_all_tags names root = filter (tag_named names) (descendants root)"

fun attr :: "string \<Rightarrow> node \<Rightarrow> string option" where
  "attr key (Str k s) = None"
| "attr key (Tag name attrs children) = map_of attrs key"

text \<open>
  \<open>s.strip()\<close> and \<open>sep.join(parts)\<close>. \<open>all_strings\<close> is what \<open>get_text\<close> and
  \<open>stripped_strings\<close> iterate over: the strings below a node that are page text
  (\<open>NavigableString\<close> and \<open>CData\<close>, not comments or declarations), stripped and
  without the empty ones when \<open>strip\<close> is set.
\<close>

definition py_strip :: "(char \<Rightarrow> bool) \<Rightarrow> string \<Rightarrow> string" where
  "py_strip sp s = rev (dropWhile sp (rev (dropWhile sp s)))"

fun py_join :: "string \<Rightarrow> string list \<Rightarrow> string" where
  "py_join sep [] = []"
| "py_join sep [x] = x"
| "py_join sep (x # y # ys) = x @ sep @ py_join sep (y # ys)"

fun page_strings :: "node \<Rightarrow> string list" where
  "page_strings (Str k s) = (if k = NavigableString \<or> k = CData then [s] else [])"
| "page_strings (Tag name attrs children) = []"

definition all_strings :: "(char \<Rightarrow> bool) \<Rightarrow> bool \<Rightarrow> node \<Rightarrow> string list" where
  "all_strings sp strip root =
     (let found = concat (map page_strings (descendants root))
      in if strip then filter (\<lambda>s. s \<noteq> []) (map (py_strip sp) found) else found)"

definition get_text :: "(char \<Rightarrow> bool) \<Rightarrow> string \<Rightarrow> bool \<Rightarrow> node \<Rightarrow> string" where
  "get_text sp separator strip root = py_join separator (all_strings sp strip root)"

text \<open>\<open>decompose\<close> on every tag named in \<open>names\<close>: the subtrees are removed.\<close>

fun decompose_all :: "string list \<Rightarrow> node \<Rightarrow> node" where
  "decompose_all names (Str k s) = Str k s"
| "decompose_all names (Tag name attrs children) =
     Tag name attrs (map (decompose_all names) (filter (\<lambda>c. \<not> tag_named names c) children))"

section \<open>websearch.py: WebScraper\<close>

text \<open>
  The fields of the object that the crawl reads or writes (\<open>request_timeout\<close> and
  \<open>headers\<close> go to \<open>requests.get\<close>, whose outcome is the environment's). \<open>clock\<close>
  counts the calls of \<open>requests.get\<close> made so far, and \<open>trace\<close> records what the run did, in order:
  \<open>Crawling url depth\<close> where the loop prints \<open>Crawling: ...\<close> and marks the URL
  visited, \<open>Request url\<close> at every call of \<open>requests.get\<close>, \<open>Store url\<close> where
  \<open>scraped_data[url]\<close> is written, and \<open>Enqueue url depth\<close> at \<open>queue.append\<close>.
\<close>

datatype event =
    Crawling string int
  | Request string
  | Store string
  | Enqueue string int

record scraper =
  start_url :: string
  domain :: string
  visited :: "string set"
  queue :: "(string \<times> int) list"
  scraped_data :: "(string, string) dict"
  max_depth :: int
  delay :: py_float
  clock :: nat
  trace :: "event list"

text \<open>\<open>__init__\<close>: \<open>urlparse(start_url)\<close> may raise, and nothing catches it.\<close>

definition init :: "env \<Rightarrow> string \<Rightarrow> int \<Rightarrow> py_float \<Rightarrow> py_error + scraper" where
  "init e url depth_limit secs =
     (case urlparse e url of
        None \<Rightarrow> Inl ValueError
      | Some p \<Rightarrow>
          Inr \<lparr>start_url = url, domain = netloc p, visited = {}, queue = [(url, 0)],
               scraped_data = [], max_depth = depth_limit, delay = secs, clock = 0,
               trace = []\<rparr>)"

text \<open>
  \<open>_get_page_content\<close>: \<open>raise_for_status\<close> raises for the status codes
  \<open>400 .. 599\<close>, and the \<open>except\<close> clause turns every \<open>RequestException\<close> into
  \<open>None\<close>. The call is one request: it is logged and moves the clock.
\<close>

fun response_body :: "http_result \<Rightarrow> string option" where
  "response_body RequestException = None"
| "response_body (Response status_code body) =
     (if 400 \<le> status_code \<and> status_code < 600 then None else Some body)"

definition get_page_content :: "env \<Rightarrow> scraper \<Rightarrow> string \<Rightarrow> string option \<times> scraper" where
  "get_page_content e st url =
     (response_body (http_get e (clock st) url),
      st\<lparr>clock := Suc (clock st), trace := trace st @ [Request url]\<rparr>)"

text \<open>\<open>if content:\<close> holds for a string that is neither \<open>None\<close> nor empty.\<close>

fun truthy :: "string option \<Rightarrow> bool" where
  "truthy None = False"
| "truthy (Some s) = (s \<noteq> [])"

text \<open>
  \<open>_extract_links\<close>: the anchors with an \<open>href\<close>, resolved against the current
  URL, that are on the crawl's domain and not visited. \<open>urljoin\<close> and \<open>urlparse\<close>
  may raise.
\<close>

definition anchor_hrefs :: "node \<Rightarrow> string list" where
  "anchor_hrefs soup =
     concat (map (\<lambda>t. case attr ''href'' t of None \<Rightarrow> [] | Some href \<Rightarrow> [href])
       (find_all_tags [''a''] soup))"

fun extract_links_loop ::
  "env \<Rightarrow> scraper \<Rightarrow> string \<Rightarrow> string list \<Rightarrow> string list \<Rightarrow> py_error + string list" where
  "extract_links_loop e st current_url [] links = Inr links"
| "extract_links_loop e st current_url (href # rest) links =
     (case urljoin e current_url href of
        None \<Rightarrow> Inl ValueError
      | Some absolute_url \<Rightarrow>
          (case urlparse e absolute_url of
             None \<Rightarrow> Inl ValueError
           | Some p \<Rightarrow>
               if netloc p = domain st \<and> absolute_url \<notin> visited st
               then extract_links_loop e st current_url rest (links @ [absolute_url])
               else extract_links_loop e st current_url rest links))"

definition extract_links :: "env \<Rightarrow> scraper \<Rightarrow> string \<Rightarrow> string \<Rightarrow> py_error + string list" where
  "extract_links e st html_content current_url =
     extract_links_loop e st current_url (anchor_hrefs (html_parser e html_content)) []"

text \<open>
  \<open>scrape_page\<close> fetches the URL again and returns the page text: the strings of the
  document without its \<open>script\<close> and \<open>style\<close> subtrees, stripped and joined by
  newlines.
\<close>

definition page_text :: "env \<Rightarrow> string \<Rightarrow> string" where
  "page_text e content =
     (let soup = decompose_all [''script'', ''style''] (html_parser e content)
      in py_join [CHR 0x0A] (all_strings (isspace e) True soup))"

definition scrape_page :: "env \<Rightarrow> scraper \<Rightarrow> string \<Rightarrow> string option \<times> scraper" where
  "scrape_page e st url =
     (case get_page_content e st url of
        (content, st') \<Rightarrow>
          if truthy content then (Some (page_text e (the content)), st') else (None, st'))"

text \<open>The inner loop of \<open>crawl\<close> over the links of a page.\<close>

fun enqueue_links :: "scraper \<Rightarrow> int \<Rightarrow> string list \<Rightarrow> scraper" where
  "enqueue_links st depth [] = st"
| "enqueue_links st depth (link # rest) =
     (if link \<notin> visited st
      then enqueue_links
             (st\<lparr>queue := queue st @ [(link, depth + 1)],
                 trace := trace st @ [Enqueue link (depth + 1)]\<rparr>) depth rest
      else enqueue_links st depth rest)"

text \<open>
  One iteration of \<open>while self.queue\<close>, on a state whose queue is not empty. An
  exception of \<open>time.sleep\<close> or of \<open>_extract_links\<close> leaves the loop and the
  method.
\<close>

definition crawl_step :: "env \<Rightarrow> scraper \<Rightarrow> py_error + scraper" where
  "crawl_step e st =
     (case queue st of
        [] \<Rightarrow> Inr st
      | (current_url, depth) # rest \<Rightarrow>
          (let st1 = st\<lparr>queue := rest\<rparr> in
           if current_url \<in> visited st1 \<or> depth > max_depth st1 then Inr st1
           else
             (let st2 = st1\<lparr>visited := insert current_url (visited st1),
                            trace := trace st1 @ [Crawling current_url depth]\<rparr>
              in case sleep e (delay st2) of
                   Some err \<Rightarrow> Inl err
                 | None \<Rightarrow>
                     (case get_page_content e st2 current_url of
                        (page_content, st3) \<Rightarrow>
                          if truthy page_content then
                            (case scrape_page e st3 current_url of
                               (text_content, st4) \<Rightarrow>
                                 (let st5 =
                                    (if truthy text_content
                                     then st4\<lparr>scraped_data :=
                                                AList.update current_url (the text_content)
                                                  (scraped_data st4),
                                              trace := trace st4 @ [Store current_url]\<rparr>
                                     else st4)
                                  in if depth < max_depth st5 then
                                       (case extract_links e st5 (the page_content) current_url of
                                          Inl err \<Rightarrow> Inl err
                                        | Inr links \<Rightarrow> Inr (enqueue_links st5 depth links))
                                     else Inr st5))
                          else Inr st3))))"

subsection \<open>The steps of the loop\<close>

text \<open>
  \<open>after_fetch\<close> is the state of an iteration after both requests and the write to
  \<open>scraped_data\<close>, where the first request returned a page. \<open>weight\<close> and
  \<open>pending\<close> measure the work left in the queue: a task weighs the number of levels
  below it that the depth limit still allows.
\<close>

lemma scrape_page_state:
  "snd (scrape_page e st url) = st\<lparr>clock := Suc (clock st), trace := trace st @ [Request url]\<rparr>"
  by (simp add: scrape_page_def get_page_content_def Let_def)

lemma enqueue_links_eq:
  "enqueue_links st depth links =
     st\<lparr>queue := queue st @ map (\<lambda>l. (l, depth + 1)) (filter (\<lambda>l. l \<notin> visited st) links),
        trace := trace st @ map (\<lambda>l. Enqueue l (depth + 1)) (filter (\<lambda>l. l \<notin> visited st) links)\<rparr>"
  by (induction st depth links rule: enqueue_links.induct) simp_all

definition weight :: "int \<Rightarrow> string \<times> int \<Rightarrow> nat" where
  "weight limit task = nat (limit - snd task + 1)"

definition pending :: "scraper \<Rightarrow> nat multiset" where
  "pending st = mset (map (weight (max_depth st)) (queue st))"

lemma crawl_step_skip:
  "queue st = (u, d) # rest \<Longrightarrow> u \<in> visited st \<or> d > max_depth st \<Longrightarrow>
   crawl_step e st = Inr (st\<lparr>queue := rest\<rparr>)"
  by (simp add: crawl_step_def)

lemma crawl_step_raises:
  "queue st = (u, d) # rest \<Longrightarrow> u \<notin> visited st \<Longrightarrow> d \<le> max_depth st \<Longrightarrow>
   sleep e (delay st) = Some err \<Longrightarrow> crawl_step e st = Inl err"
  by (simp add: crawl_step_def)

lemma crawl_step_fail:
  "queue st = (u, d) # rest \<Longrightarrow> u \<notin> visited st \<Longrightarrow> d \<le> max_depth st \<Longrightarrow>
   \<not> truthy (response_body (http_get e (clock st) u)) \<Longrightarrow> sleep e (delay st) = None \<Longrightarrow>
   crawl_step e st = Inr (st\<lparr>queue := rest, visited := insert u (visited st),
      clock := Suc (clock st), trace := trace st @ [Crawling u d, Request u]\<rparr>)"
  by (simp add: crawl_step_def get_page_content_def)

definition after_fetch :: "env \<Rightarrow> scraper \<Rightarrow> string \<Rightarrow> int \<Rightarrow> (string \<times> int) list \<Rightarrow> scraper" where
  "after_fetch e st u d rest =
     (let second = response_body (http_get e (Suc (clock st)) u);
          base = st\<lparr>queue := rest, visited := insert u (visited st),
                    clock := Suc (Suc (clock st)),
                    trace := trace st @ [Crawling u d, Request u, Request u]\<rparr>
      in if truthy second \<and> page_text e (the second) \<noteq> []
         then base\<lparr>scraped_data := AList.update u (page_text e (the second)) (scraped_data st),
                   trace := trace base @ [Store u]\<rparr>
         else base)"

lemma crawl_step_ok:
  "queue st = (u, d) # rest \<Longrightarrow> u \<notin> visited st \<Longrightarrow> d \<le> max_depth st \<Longrightarrow>
   response_body (http_get e (clock st) u) = Some body \<Longrightarrow> body \<noteq> [] \<Longrightarrow>
   sleep e (delay st) = None \<Longrightarrow>
   crawl_step e st =
     (if d < max_depth st then
        (case extract_links e (after_fetch e st u d rest) body u of
           Inl err \<Rightarrow> Inl err
         | Inr links \<Rightarrow> Inr (enqueue_links (after_fetch e st u d rest) d links))
      else Inr (after_fetch e st u d rest))"
  by (simp add: crawl_step_def get_page_content_def scrape_page_def after_fetch_def Let_def
      cong: sum.case_cong if_cong)

lemma after_fetch_fields:
  "queue (after_fetch e st u d rest) = rest"
  "visited (after_fetch e st u d rest) = insert u (visited st)"
  "max_depth (after_fetch e st u d rest) = max_depth st"
  "domain (after_fetch e st u d rest) = domain st"
  "start_url (after_fetch e st u d rest) = start_url st"
  "clock (after_fetch e st u d rest) = Suc (Suc (clock st))"
  "delay (after_fetch e st u d rest) = delay st"
  by (simp_all add: after_fetch_def Let_def)

lemma crawl_step_cases:
  assumes "crawl_step e st = Inr st'" and "queue st = (u, d) # rest"
  obtains
    (skip) "u \<in> visited st \<or> d > max_depth st" "st' = st\<lparr>queue := rest\<rparr>"
  | (fail) "u \<notin> visited st" "d \<le> max_depth st"
      "\<not> truthy (response_body (http_get e (clock st) u))"
      "st' = st\<lparr>queue := rest, visited := insert u (visited st),
         clock := Suc (clock st), trace := trace st @ [Crawling u d, Request u]\<rparr>"
      "sleep e (delay st) = None"
  | (leaf) body where "u \<notin> visited st" "d = max_depth st"
      "response_body (http_get e (clock st) u) = Some body" "body \<noteq> []"
      "st' = after_fetch e st u d rest" "sleep e (delay st) = None"
  | (expand) body links where "u \<notin> visited st" "d < max_depth st"
      "response_body (http_get e (clock st) u) = Some body" "body \<noteq> []"
      "extract_links e (after_fetch e st u d rest) body u = Inr links"
      "st' = enqueue_links (after_fetch e st u d rest) d links" "sleep e (delay st) = None"
proof (cases "u \<in> visited st \<or> d > max_depth st")
  case True
  with assms crawl_step_skip[OF assms(2) True, of e] skip show ?thesis by simp
next
  case False
  then have nv: "u \<notin> visited st" and le: "d \<le> max_depth st" by auto
  have sl: "sleep e (delay st) = None"
  proof (cases "sleep e (delay st)")
    case (Some err)
    from crawl_step_raises[OF assms(2) nv le Some] assms(1) show ?thesis by simp
  qed
  show ?thesis
  proof (cases "truthy (response_body (http_get e (clock st) u))")
    case False
    with assms crawl_step_fail[OF assms(2) nv le False sl] fail nv le sl show ?thesis by simp
  next
    case True
    then obtain body where b: "response_body (http_get e (clock st) u) = Some body" "body \<noteq> []"
      by (cases "response_body (http_get e (clock st) u)") auto
    note ok = crawl_step_ok[OF assms(2) nv le b sl]
    show ?thesis
    proof (cases "d < max_depth st")
      case False
      with ok assms(1) have "st' = after_fetch e st u d rest" by simp
      with leaf nv le False b sl show ?thesis by simp
    next
      case True
      with ok assms(1) obtain links where
        "extract_links e (after_fetch e st u d rest) body u = Inr links"
        "st' = enqueue_links (after_fetch e st u d rest) d links"
        by (auto split: sum.splits)
      with expand nv True b sl show ?thesis by blast
    qed
  qed
qed

lemma pending_enqueue:
  "pending (enqueue_links st d links) =
     pending st + mset (map (\<lambda>l. weight (max_depth st) (l, d + 1)) (filter (\<lambda>l. l \<notin> visited st) links))"
  by (simp add: enqueue_links_eq pending_def comp_def)

lemma crawl_step_decreases:
  assumes "crawl_step e st = Inr st'" and "queue st \<noteq> []"
  shows "(pending st', pending st) \<in> mult1 {(a, b). a < b}"
proof -
  from assms(2) obtain u d rest where q: "queue st = (u, d) # rest"
    by (cases "queue st") auto
  let ?M0 = "mset (map (weight (max_depth st)) rest)"
  have M: "pending st = add_mset (weight (max_depth st) (u, d)) ?M0"
    by (simp add: pending_def q)
  from assms(1) q show ?thesis
  proof (cases rule: crawl_step_cases)
    case skip
    then have "pending st' = ?M0 + {#}" by (simp add: pending_def)
    with M show ?thesis by (auto intro!: mult1I)
  next
    case fail
    then have "pending st' = ?M0 + {#}" by (simp add: pending_def)
    with M show ?thesis by (auto intro!: mult1I)
  next
    case (leaf body)
    then have "pending st' = ?M0 + {#}" by (simp add: pending_def after_fetch_fields)
    with M show ?thesis by (auto intro!: mult1I)
  next
    case (expand body links)
    let ?K = "mset (map (\<lambda>l. weight (max_depth st) (l, d + 1))
                 (filter (\<lambda>l. l \<notin> insert u (visited st)) links))"
    from expand have N: "pending st' = ?M0 + ?K"
      by (simp add: pending_enqueue after_fetch_fields) (simp add: pending_def after_fetch_fields)
    have "\<forall>b. b \<in># ?K \<longrightarrow> (b, weight (max_depth st) (u, d)) \<in> {(a, b). a < b}"
      using expand(2) by (auto simp: weight_def)
    with M N show ?thesis by (intro mult1I) auto
  qed
qed

subsection \<open>The loop\<close>

text \<open>
  \<open>crawl\<close> runs \<open>while self.queue\<close> to its end. It terminates on every state and
  in every environment: an iteration replaces the task it takes from the queue by
  finitely many tasks one level deeper, and none below the depth limit.
  \<open>reachable e st0 st\<close>: the loop started in \<open>st0\<close> passes through \<open>st\<close>.
\<close>

function crawl :: "env \<Rightarrow> scraper \<Rightarrow> py_error + scraper" where
  "crawl e st =
     (if queue st = [] then Inr st
      else case crawl_step e st of Inl err \<Rightarrow> Inl err | Inr st' \<Rightarrow> crawl e st')"
  by pat_completeness auto
termination
proof (relation "inv_image (mult1 {(a, b). a < b}) (\<lambda>(e, st). pending st)")
  show "wf (inv_image (mult1 {(a, b). a < b}) (\<lambda>(e :: env, st). pending st))"
    by (intro wf_inv_image wf_mult1) (simp add: wf_less)
next
  fix e st st'
  assume "queue st \<noteq> []" "crawl_step e st = Inr st'"
  then show "((e, st'), (e, st)) \<in> inv_image (mult1 {(a, b). a < b}) (\<lambda>(e, st). pending st)"
    by (simp add: crawl_step_decreases)
qed

declare crawl.simps [simp del]

inductive reachable :: "env \<Rightarrow> scraper \<Rightarrow> scraper \<Rightarrow> bool" for e st0 where
  start: "reachable e st0 st0"
| step: "reachable e st0 st \<Longrightarrow> queue st \<noteq> [] \<Longrightarrow> crawl_step e st = Inr st' \<Longrightarrow>
         reachable e st0 st'"

lemma reachable_trans:
  "reachable e st1 st2 \<Longrightarrow> reachable e st0 st1 \<Longrightarrow> reachable e st0 st2"
  by (induction rule: reachable.induct) (auto intro: reachable.intros)

lemma crawl_reachable:
  "crawl e st = Inr st' \<Longrightarrow> reachable e st st' \<and> queue st' = []"
proof (induction e st rule: crawl.induct)
  case (1 e st)
  show ?case
  proof (cases "queue st = []")
    case True
    with "1.prems" show ?thesis by (simp add: crawl.simps[of e st] reachable.start)
  next
    case False
    with "1.prems" obtain st1 where s: "crawl_step e st = Inr st1" "crawl e st1 = Inr st'"
      by (simp add: crawl.simps[of e st] split: sum.splits)
    from "1.IH"[OF False s(1) s(2)] have r: "reachable e st1 st'" "queue st' = []" by auto
    have "reachable e st st1" using reachable.step[OF reachable.start False s(1)] .
    with reachable_trans[OF r(1)] r(2) show ?thesis by simp
  qed
qed

subsection \<open>Reading the trace\<close>

text \<open>
  \<open>crawled tr\<close> lists the URLs of the \<open>Crawling\<close> events of a trace, in order.
  \<open>marked_before_request seen tr\<close> holds when every request of \<open>tr\<close> is for a URL
  that is in \<open>seen\<close> or has a \<open>Crawling\<close> event earlier in \<open>tr\<close>.
\<close>

fun crawled :: "event list \<Rightarrow> string list" where
  "crawled [] = []"
| "crawled (Crawling u d # t) = u # crawled t"
| "crawled (ev # t) = crawled t"

fun marked_before_request :: "string set \<Rightarrow> event list \<Rightarrow> bool" where
  "marked_before_request seen [] = True"
| "marked_before_request seen (Crawling u d # t) = marked_before_request (insert u seen) t"
| "marked_before_request seen (Request u # t) = (u \<in> seen \<and> marked_before_request seen t)"
| "marked_before_request seen (ev # t) = marked_before_request seen t"

lemma crawled_append: "crawled (a @ b) = crawled a @ crawled b"
  by (induction a rule: crawled.induct) simp_all

lemma marked_append:
  "marked_before_request seen (a @ b) =
     (marked_before_request seen a \<and> marked_before_request (seen \<union> set (crawled a)) b)"
  by (induction seen a rule: marked_before_request.induct) simp_all

lemma crawled_enqueues: "crawled (map (\<lambda>l. Enqueue l d) ls) = []"
  by (induction ls) simp_all

lemma marked_enqueues: "marked_before_request seen (map (\<lambda>l. Enqueue l d) ls)"
  by (induction ls) simp_all

lemma after_fetch_trace:
  "\<exists>stored. trace (after_fetch e st u d rest) =
      trace st @ [Crawling u d, Request u, Request u] @ (if stored then [Store u] else []) \<and>
    scraped_data (after_fetch e st u d rest) =
      (if stored then AList.update u (page_text e (the (response_body (http_get e (Suc (clock st)) u))))
                        (scraped_data st)
       else scraped_data st) \<and>
    stored = (truthy (response_body (http_get e (Suc (clock st)) u)) \<and>
              page_text e (the (response_body (http_get e (Suc (clock st)) u))) \<noteq> [])"
  by (simp add: after_fetch_def Let_def)

definition visited_inv :: "scraper \<Rightarrow> bool" where
  "visited_inv st =
     (visited st = set (crawled (trace st)) \<and> distinct (crawled (trace st)) \<and>
      marked_before_request {} (trace st))"

lemma visited_inv_step:
  assumes "visited_inv st" and "crawl_step e st = Inr st'" and "queue st \<noteq> []"
  shows "visited_inv st'"
proof -
  from assms(3) obtain u d rest where q: "queue st = (u, d) # rest"
    by (cases "queue st") auto
  from assms(1) have v: "visited st = set (crawled (trace st))"
    and dd: "distinct (crawled (trace st))" and mk: "marked_before_request {} (trace st)"
    by (simp_all add: visited_inv_def)
  from assms(2) q show ?thesis
  proof (cases rule: crawl_step_cases)
    case skip
    with assms(1) show ?thesis by (simp add: visited_inv_def)
  next
    case fail
    with v dd mk show ?thesis
      by (simp add: visited_inv_def crawled_append marked_append)
  next
    case (leaf body)
    obtain stored where t: "trace (after_fetch e st u d rest) =
      trace st @ [Crawling u d, Request u, Request u] @ (if stored then [Store u] else [])"
      using after_fetch_trace by blast
    with leaf v dd mk show ?thesis
      by (simp add: visited_inv_def crawled_append marked_append after_fetch_fields)
  next
    case (expand body links)
    obtain stored where t: "trace (after_fetch e st u d rest) =
      trace st @ [Crawling u d, Request u, Request u] @ (if stored then [Store u] else [])"
      using after_fetch_trace by blast
    with expand v dd mk show ?thesis
      by (simp add: visited_inv_def enqueue_links_eq crawled_append marked_append
          after_fetch_fields crawled_enqueues marked_enqueues)
  qed
qed

lemma visited_inv_reachable:
  "reachable e st0 st \<Longrightarrow> visited_inv st0 \<Longrightarrow> visited_inv st"
  by (induction rule: reachable.induct) (auto intro: visited_inv_step)

lemma init_fields:
  assumes "init e url limit secs = Inr st0"
  shows "start_url st0 = url" "visited st0 = {}" "queue st0 = [(url, 0)]" "scraped_data st0 = []"
    "max_depth st0 = limit" "clock st0 = 0" "trace st0 = []"
    "\<exists>p. urlparse e url = Some p \<and> domain st0 = netloc p" "delay st0 = secs"
  using assms by (auto simp: init_def split: option.splits)

lemma visited_inv_init: "init e url limit secs = Inr st0 \<Longrightarrow> visited_inv st0"
  by (simp add: visited_inv_def init_fields)


lemma crawl_step_keeps:
  assumes "crawl_step e st = Inr st'" and "queue st \<noteq> []"
  shows "max_depth st' = max_depth st" "domain st' = domain st" "start_url st' = start_url st"
    "visited st \<subseteq> visited st'" "delay st' = delay st"
proof -
  from assms(2) obtain u d rest where q: "queue st = (u, d) # rest"
    by (cases "queue st") auto
  from assms(1) q
  have "max_depth st' = max_depth st \<and> domain st' = domain st \<and> start_url st' = start_url st \<and>
        visited st \<subseteq> visited st' \<and> delay st' = delay st"
    by (cases rule: crawl_step_cases) (auto simp: after_fetch_fields enqueue_links_eq)
  then show "max_depth st' = max_depth st" "domain st' = domain st" "start_url st' = start_url st"
    "visited st \<subseteq> visited st'" "delay st' = delay st" by simp_all
qed

text \<open>The depth of an event that has one is within the limit.\<close>

fun event_depth_ok :: "int \<Rightarrow> event \<Rightarrow> bool" where
  "event_depth_ok limit (Crawling u d) = (d \<le> limit)"
| "event_depth_ok limit (Enqueue u d) = (d \<le> limit)"
| "event_depth_ok limit ev = True"

definition depth_inv :: "scraper \<Rightarrow> bool" where
  "depth_inv st = (\<forall>ev \<in> set (trace st). event_depth_ok (max_depth st) ev)"

lemma depth_inv_step:
  assumes "depth_inv st" and "crawl_step e st = Inr st'" and "queue st \<noteq> []"
  shows "depth_inv st'"
proof -
  from assms(3) obtain u d rest where q: "queue st = (u, d) # rest"
    by (cases "queue st") auto
  from assms(1) have old: "\<forall>ev \<in> set (trace st). event_depth_ok (max_depth st) ev"
    by (simp add: depth_inv_def)
  from assms(2) q show ?thesis
  proof (cases rule: crawl_step_cases)
    case skip
    with old show ?thesis by (simp add: depth_inv_def)
  next
    case fail
    with old show ?thesis by (auto simp: depth_inv_def)
  next
    case (leaf body)
    obtain stored where t: "trace (after_fetch e st u d rest) =
      trace st @ [Crawling u d, Request u, Request u] @ (if stored then [Store u] else [])"
      using after_fetch_trace by blast
    with leaf old show ?thesis
      by (auto simp: depth_inv_def after_fetch_fields)
  next
    case (expand body links)
    obtain stored where t: "trace (after_fetch e st u d rest) =
      trace st @ [Crawling u d, Request u, Request u] @ (if stored then [Store u] else [])"
      using after_fetch_trace by blast
    with expand old show ?thesis
      by (auto simp: depth_inv_def after_fetch_fields enqueue_links_eq)
  qed
qed

lemma depth_inv_reachable: "reachable e st0 st \<Longrightarrow> depth_inv st0 \<Longrightarrow> depth_inv st"
  by (induction rule: reachable.induct) (auto intro: depth_inv_step)

lemma depth_inv_init: "init e url limit secs = Inr st0 \<Longrightarrow> depth_inv st0"
  by (simp add: depth_inv_def init_fields)

lemma reachable_keeps:
  "reachable e st0 st \<Longrightarrow>
   max_depth st = max_depth st0 \<and> domain st = domain st0 \<and> start_url st = start_url st0 \<and>
   visited st0 \<subseteq> visited st \<and> delay st = delay st0"
proof (induction rule: reachable.induct)
  case start
  show ?case by simp
next
  case (step st st')
  from crawl_step_keeps[OF step.hyps(3) step.hyps(2)] step.IH show ?case by auto
qed

lemma extract_links_loop_sound:
  "extract_links_loop e st cur hrefs acc = Inr links \<Longrightarrow>
   \<forall>l \<in> set links - set acc. \<exists>href p. href \<in> set hrefs \<and> urljoin e cur href = Some l \<and>
       urlparse e l = Some p \<and> netloc p = domain st \<and> l \<notin> visited st"
proof (induction hrefs arbitrary: acc)
  case Nil
  then show ?case by simp
next
  case (Cons href rest)
  from Cons.prems obtain a p where a: "urljoin e cur href = Some a" "urlparse e a = Some p"
    by (auto split: option.splits)
  show ?case
  proof (cases "netloc p = domain st \<and> a \<notin> visited st")
    case True
    with Cons.prems a have "extract_links_loop e st cur rest (acc @ [a]) = Inr links" by simp
    note IH = Cons.IH[OF this]
    show ?thesis
    proof
      fix l
      assume l: "l \<in> set links - set acc"
      show "\<exists>h p. h \<in> set (href # rest) \<and> urljoin e cur h = Some l \<and>
              urlparse e l = Some p \<and> netloc p = domain st \<and> l \<notin> visited st"
      proof (cases "l = a")
        case True
        with a \<open>netloc p = domain st \<and> a \<notin> visited st\<close> show ?thesis by auto
      next
        case False
        with l have "l \<in> set links - set (acc @ [a])" by simp
        with IH obtain h q where "h \<in> set rest" "urljoin e cur h = Some l"
          "urlparse e l = Some q" "netloc q = domain st" "l \<notin> visited st"
          by blast
        then show ?thesis by auto
      qed
    qed
  next
    case False
    with Cons.prems a have "extract_links_loop e st cur rest acc = Inr links" by auto
    from Cons.IH[OF this] show ?thesis by (simp add: Bex_def) blast
  qed
qed

lemma extract_links_sound:
  "extract_links e st html cur = Inr links \<Longrightarrow> l \<in> set links \<Longrightarrow>
   \<exists>href p. href \<in> set (anchor_hrefs (html_parser e html)) \<and> urljoin e cur href = Some l \<and>
     urlparse e l = Some p \<and> netloc p = domain st \<and> l \<notin> visited st"
  using extract_links_loop_sound[of e st cur _ "[]" links] by (auto simp: extract_links_def)


text \<open>\<open>on_domain e host url\<close>: \<open>urlparse(url).netloc == host\<close>.\<close>

definition on_domain :: "env \<Rightarrow> string \<Rightarrow> string \<Rightarrow> bool" where
  "on_domain e host url = (\<exists>p. urlparse e url = Some p \<and> netloc p = host)"

fun event_url :: "event \<Rightarrow> string" where
  "event_url (Crawling u d) = u"
| "event_url (Request u) = u"
| "event_url (Store u) = u"
| "event_url (Enqueue u d) = u"

definition scope_inv :: "env \<Rightarrow> scraper \<Rightarrow> bool" where
  "scope_inv e st =
     ((\<forall>task \<in> set (queue st). on_domain e (domain st) (fst task)) \<and>
      (\<forall>ev \<in> set (trace st). on_domain e (domain st) (event_url ev)))"

lemma scope_inv_step:
  assumes "scope_inv e st" and "crawl_step e st = Inr st'" and "queue st \<noteq> []"
  shows "scope_inv e st'"
proof -
  from assms(3) obtain u d rest where q: "queue st = (u, d) # rest"
    by (cases "queue st") auto
  from assms(1) q have u: "on_domain e (domain st) u"
    and qs: "\<forall>task \<in> set rest. on_domain e (domain st) (fst task)"
    and tr: "\<forall>ev \<in> set (trace st). on_domain e (domain st) (event_url ev)"
    by (simp_all add: scope_inv_def)
  from assms(2) q show ?thesis
  proof (cases rule: crawl_step_cases)
    case skip
    with qs tr show ?thesis by (simp add: scope_inv_def)
  next
    case fail
    with u qs tr show ?thesis by (auto simp: scope_inv_def)
  next
    case (leaf body)
    obtain stored where t: "trace (after_fetch e st u d rest) =
      trace st @ [Crawling u d, Request u, Request u] @ (if stored then [Store u] else [])"
      using after_fetch_trace by blast
    with leaf u qs tr show ?thesis
      by (auto simp: scope_inv_def after_fetch_fields)
  next
    case (expand body links)
    obtain stored where t: "trace (after_fetch e st u d rest) =
      trace st @ [Crawling u d, Request u, Request u] @ (if stored then [Store u] else [])"
      using after_fetch_trace by blast
    have new: "on_domain e (domain st) l" if "l \<in> set links" for l
      using extract_links_sound[OF expand(5) that]
      by (auto simp: on_domain_def after_fetch_fields)
    with expand t u qs tr show ?thesis
      by (auto simp: scope_inv_def after_fetch_fields enqueue_links_eq)
  qed
qed

lemma scope_inv_reachable: "reachable e st0 st \<Longrightarrow> scope_inv e st0 \<Longrightarrow> scope_inv e st"
  by (induction rule: reachable.induct) (auto intro: scope_inv_step)

lemma scope_inv_init:
  assumes "init e url limit secs = Inr st0"
  shows "scope_inv e st0"
  using init_fields(8)[OF assms]
  by (auto simp: scope_inv_def init_fields(3,7)[OF assms] on_domain_def)

text \<open>
  What \<open>_extract_links\<close> returns when it returns: the results of \<open>urljoin\<close> for the
  anchors of the page, in order and as \<open>urljoin\<close> gave them, without those of
  another netloc and those in the visited set. It returns when \<open>urljoin\<close> and
  \<open>urlparse\<close> accept every link.
\<close>

definition joins :: "env \<Rightarrow> string \<Rightarrow> string list \<Rightarrow> string list" where
  "joins e cur hrefs = map (\<lambda>href. the (urljoin e cur href)) hrefs"

lemma extract_links_loop_exact:
  "extract_links_loop e st cur hrefs acc = Inr links \<Longrightarrow>
   links = acc @ filter (\<lambda>l. on_domain e (domain st) l \<and> l \<notin> visited st) (joins e cur hrefs)"
proof (induction hrefs arbitrary: acc)
  case Nil
  then show ?case by (simp add: joins_def)
next
  case (Cons href rest)
  from Cons.prems obtain a p where a: "urljoin e cur href = Some a" "urlparse e a = Some p"
    by (auto split: option.splits)
  show ?case
  proof (cases "netloc p = domain st \<and> a \<notin> visited st")
    case True
    with Cons.prems a have "extract_links_loop e st cur rest (acc @ [a]) = Inr links" by simp
    from Cons.IH[OF this] True a show ?thesis by (simp add: joins_def on_domain_def)
  next
    case False
    with Cons.prems a have "extract_links_loop e st cur rest acc = Inr links" by auto
    from Cons.IH[OF this] False a show ?thesis by (auto simp: joins_def on_domain_def)
  qed
qed

lemma extract_links_exact:
  "extract_links e st html cur = Inr links \<Longrightarrow>
   links = filter (\<lambda>l. on_domain e (domain st) l \<and> l \<notin> visited st)
             (joins e cur (anchor_hrefs (html_parser e html)))"
  using extract_links_loop_exact[of e st cur _ "[]" links] by (simp add: extract_links_def)

lemma extract_links_loop_returns:
  "\<forall>href \<in> set hrefs. \<exists>l p. urljoin e cur href = Some l \<and> urlparse e l = Some p \<Longrightarrow>
   \<exists>links. extract_links_loop e st cur hrefs acc = Inr links"
  by (induction hrefs arbitrary: acc) auto

lemma extract_links_returns:
  "\<forall>href \<in> set (anchor_hrefs (html_parser e html)).
      \<exists>l p. urljoin e cur href = Some l \<and> urlparse e l = Some p \<Longrightarrow>
   \<exists>links. extract_links e st html cur = Inr links"
  using extract_links_loop_returns[of _ e cur st "[]"] by (simp add: extract_links_def)















text \<open>\<open>crawl_steps n\<close> runs at most \<open>n\<close> iterations of the loop.\<close>

fun crawl_steps :: "nat \<Rightarrow> env \<Rightarrow> scraper \<Rightarrow> py_error + scraper" where
  "crawl_steps 0 e st = Inr st"
| "crawl_steps (Suc n) e st =
     (if queue st = [] then Inr st
      else case crawl_step e st of Inl err \<Rightarrow> Inl err | Inr st' \<Rightarrow> crawl_steps n e st')"

lemma crawl_steps_reachable: "crawl_steps n e st = Inr st' \<Longrightarrow> reachable e st st'"
proof (induction n arbitrary: st)
  case 0
  then show ?case by (simp add: reachable.start)
next
  case (Suc n)
  show ?case
  proof (cases "queue st = []")
    case True
    with Suc.prems show ?thesis by (simp add: reachable.start)
  next
    case False
    with Suc.prems obtain st1 where s: "crawl_step e st = Inr st1" "crawl_steps n e st1 = Inr st'"
      by (auto split: sum.splits)
    have "reachable e st st1" using reachable.step[OF reachable.start False s(1)] .
    with reachable_trans[OF Suc.IH[OF s(2)]] show ?thesis .
  qed
qed

subsection \<open>Whole runs\<close>

text \<open>
  \<open>run\<close> is \<open>WebScraper(url, limit, delay=secs).crawl()\<close>, and \<open>after_steps n\<close>
  the same run stopped after \<open>n\<close> iterations of the loop.
\<close>

definition run :: "env \<Rightarrow> string \<Rightarrow> int \<Rightarrow> py_float \<Rightarrow> py_error + scraper" where
  "run e url limit secs =
     (case init e url limit secs of Inl err \<Rightarrow> Inl err | Inr st \<Rightarrow> crawl e st)"

subsection \<open>A small web for concrete runs\<close>

text \<open>
  An environment for the concrete runs below. \<open>toy_urlparse\<close> splits a URL of the
  form \<open>scheme://netloc/path?query#fragment\<close> and rejects one that has a single
  square bracket in its netloc; \<open>toy_urljoin\<close> resolves an absolute reference, a
  reference that starts with a slash and a plain relative reference against such a
  URL; on these inputs they return what \<open>urllib.parse\<close> returns. \<open>toy_sleep\<close>
  raises \<open>ValueError\<close> for a negative number and for NaN and \<open>OverflowError\<close> for
  an infinity, and returns for the delays of the runs below, as \<open>time.sleep\<close>
  does. \<open>toy_env site pages\<close> answers a request from the table \<open>site\<close> (a URL that
  is not in it does not answer) and parses a body to the tree that \<open>pages\<close> gives it
  (a body that is not in it is one string of text). In \<open>second_request_fails e\<close>
  the second request of the run gets no answer. \<open>tenth\<close> is the float \<open>0.1\<close>, the
  default delay.
\<close>

definition toy_urlparse :: "string \<Rightarrow> parsed_url option" where
  "toy_urlparse url =
     (let sch = takeWhile (\<lambda>c. c \<noteq> CHR '':'') url;
          rest = drop (length sch + 3) url;
          loc = takeWhile (\<lambda>c. c \<notin> set ''/?#'') rest;
          after = drop (length loc) rest
      in if (CHR ''['' \<in> set loc) \<noteq> (CHR '']'' \<in> set loc) then None
         else Some \<lparr>scheme = sch, netloc = loc,
                    path = takeWhile (\<lambda>c. c \<notin> set ''?#'') after\<rparr>)"

definition toy_urljoin :: "string \<Rightarrow> string \<Rightarrow> string option" where
  "toy_urljoin base ref =
     (case toy_urlparse base of
        None \<Rightarrow> None
      | Some b \<Rightarrow>
          if ref = [] then Some base
          else if py_in ''://'' ref
          then (case toy_urlparse ref of None \<Rightarrow> None | Some r \<Rightarrow> Some ref)
          else if hd ref = CHR ''/'' then Some (scheme b @ ''://'' @ netloc b @ ref)
          else Some (scheme b @ ''://'' @ netloc b @
                     rev (dropWhile (\<lambda>c. c \<noteq> CHR ''/'') (rev (path b))) @ ref))"

fun toy_sleep :: "py_float \<Rightarrow> py_error option" where
  "toy_sleep (Finite m k) = (if m < 0 then Some ValueError else None)"
| "toy_sleep NaN = Some ValueError"
| "toy_sleep PosInf = Some OverflowError"
| "toy_sleep NegInf = Some OverflowError"

definition tenth :: py_float where
  "tenth = Finite 3602879701896397 (- 55)"

definition toy_env :: "(string \<times> http_result) list \<Rightarrow> (string \<times> node) list \<Rightarrow> env" where
  "toy_env site pages =
     \<lparr>http_get = (\<lambda>n url. case map_of site url of Some r \<Rightarrow> r | None \<Rightarrow> RequestException),
      html_parser = (\<lambda>body. case map_of pages body of
                       Some t \<Rightarrow> t
                     | None \<Rightarrow> Tag ''[document]'' [] [Str NavigableString body]),
      urlparse = toy_urlparse,
      urljoin = toy_urljoin,
      isspace = (\<lambda>c. c \<in> set [CHR '' '', CHR 0x09, CHR 0x0A, CHR 0x0D]),
      sleep = toy_sleep\<rparr>"


definition site1 :: "(string \<times> http_result) list" where
  "site1 = [(''http://e.com/'', Response 200 ''HOME''),
            (''http://e.com/a'', Response 200 ''PAGE A''),
            (''http://e.com/b'', Response 500 ''oops'')]"

definition pages1 :: "(string \<times> node) list" where
  "pages1 = [(''HOME'', Tag ''[document]'' []
               [Tag ''a'' [(''href'', ''/a'')] [Str NavigableString ''to a''],
                Tag ''a'' [(''href'', ''/a'')] [Str NavigableString ''again''],
                Tag ''a'' [(''href'', ''/b'')] [Str NavigableString ''to b''],
                Tag ''a'' [(''href'', ''http://other.com/x'')] [Str NavigableString ''out'']]),
             (''PAGE A'', Tag ''[document]'' []
               [Tag ''div'' [] [Str NavigableString ''PAGE A'']])]"


definition after_steps ::
  "nat \<Rightarrow> env \<Rightarrow> string \<Rightarrow> int \<Rightarrow> py_float \<Rightarrow> py_error + scraper" where
  "after_steps n e url limit secs =
     (case init e url limit secs of Inl err \<Rightarrow> Inl err | Inr st \<Rightarrow> crawl_steps n e st)"

lemma run_reachable:
  assumes "run e url limit secs = Inr st"
  obtains st0 where "init e url limit secs = Inr st0" "reachable e st0 st" "queue st = []"
  using assms crawl_reachable by (auto simp: run_def split: sum.splits)

section \<open>The crawl of WebScraper: claims\<close>

text \<open>
  Claim C2, as amended. In every state that \<open>WebScraper.crawl\<close> reaches, the visited
  set is exactly the set of URLs whose task has been taken from the queue and has
  passed the guard of the loop; no URL is crawled twice; and every request is made
  for a URL that was marked visited before. A URL enters the visited set when it is
  dequeued, not when it is enqueued.
\<close>

theorem visited_marked_at_dequeue:
  assumes "init e url limit secs = Inr st0" and "reachable e st0 st"
  shows "visited st = set (crawled (trace st)) \<and> distinct (crawled (trace st)) \<and>
         marked_before_request {} (trace st)"
  using visited_inv_reachable[OF assms(2) visited_inv_init[OF assms(1)]]
  by (simp add: visited_inv_def)

theorem visited_marked_at_dequeue_witness:
  "\<exists>st0 st. init (toy_env site1 pages1) ''http://e.com/'' 1 tenth = Inr st0 \<and>
     reachable (toy_env site1 pages1) st0 st \<and>
     crawled (trace st) = [''http://e.com/'', ''http://e.com/a'', ''http://e.com/b''] \<and>
     visited st = set (crawled (trace st)) \<and> distinct (crawled (trace st)) \<and>
     marked_before_request {} (trace st)"
proof -
  have "case run (toy_env site1 pages1) ''http://e.com/'' 1 tenth of
          Inl err \<Rightarrow> False
        | Inr st \<Rightarrow> crawled (trace st) = [''http://e.com/'', ''http://e.com/a'', ''http://e.com/b'']"
    by code_simp
  then obtain st where r: "run (toy_env site1 pages1) ''http://e.com/'' 1 tenth = Inr st"
    and c: "crawled (trace st) = [''http://e.com/'', ''http://e.com/a'', ''http://e.com/b'']"
    by (auto split: sum.splits)
  from r obtain st0 where i: "init (toy_env site1 pages1) ''http://e.com/'' 1 tenth = Inr st0"
    and re: "reachable (toy_env site1 pages1) st0 st"
    by (rule run_reachable)
  from visited_marked_at_dequeue[OF i re] i re c show ?thesis by blast
qed

text \<open>
  Claim C2 as stated fails: after the first iteration on a page with two links to the
  same URL, the URL stands twice in the queue and is not in the visited set.
\<close>

theorem enqueued_twice_counterexample:
  "map_sum id (\<lambda>st. (queue st, ''http://e.com/a'' \<in> visited st))
     (after_steps 1 (toy_env site1 pages1) ''http://e.com/'' 1 tenth) =
   Inr ([(''http://e.com/a'', 1), (''http://e.com/a'', 1), (''http://e.com/b'', 1)], False)"
  by code_simp

section \<open>smart_search.py: OllamaWebCrawlerService\<close>

text \<open>
  A row of the table \<open>web_pages\<close> (the column \<open>metadata\<close> is never written), and
  the fields of the service object. \<open>soup.title.string\<close> can be \<open>None\<close>, so the
  title of a row is optional. The table outlives the object: the rows it holds when
  the object is made are a parameter of \<open>service_init\<close>.
\<close>

record page_row =
  row_url :: string
  row_content :: string
  row_title :: "string option"
  row_images :: string

record service =
  base_url :: string
  base_domain :: string
  depth_limit :: int
  visited_urls :: "string set"
  web_pages :: "page_row list"

definition service_init :: "env \<Rightarrow> page_row list \<Rightarrow> string \<Rightarrow> int \<Rightarrow> py_error + service" where
  "service_init e rows url limit =
     (case urlparse e url of
        None \<Rightarrow> Inl ValueError
      | Some p \<Rightarrow>
          Inr \<lparr>base_url = url, base_domain = netloc p, depth_limit = limit,
               visited_urls = {}, web_pages = rows\<rparr>)"


definition is_valid_url :: "env \<Rightarrow> service \<Rightarrow> string \<Rightarrow> bool" where
  "is_valid_url e svc url =
     (case urlparse e url of
        None \<Rightarrow> False
      | Some parsed_url \<Rightarrow>
          scheme parsed_url \<in> set [''http'', ''https''] \<and>
          netloc parsed_url = base_domain svc \<and>
          url \<notin> visited_urls svc)"

text \<open>
  \<open>extract_content\<close>. \<open>tag.string\<close> is the only child of a tag when that is a
  string, the \<open>string\<close> of the only child when that is a tag, and \<open>None\<close>
  otherwise. \<open>urljoin\<close> on an image source may raise.
\<close>

fun node_string :: "node \<Rightarrow> string option" where
  "node_string (Str k s) = Some s"
| "node_string (Tag name attrs [c]) = node_string c"
| "node_string (Tag name attrs children) = None"

fun join_all :: "env \<Rightarrow> string \<Rightarrow> string list \<Rightarrow> py_error + string list" where
  "join_all e url [] = Inr []"
| "join_all e url (r # rs) =
     (case urljoin e url r of
        None \<Rightarrow> Inl ValueError
      | Some a \<Rightarrow> (case join_all e url rs of Inl err \<Rightarrow> Inl err | Inr as \<Rightarrow> Inr (a # as)))"

definition extract_content :: "env \<Rightarrow> string \<Rightarrow> node \<Rightarrow> py_error + page_row" where
  "extract_content e url soup =
     (let text_content =
            py_join '' '' (map (get_text (isspace e) [] False) (find_all_tags [''p'', ''div''] soup));
          srcs = concat (map (\<lambda>img. case attr ''src'' img of
                                       None \<Rightarrow> []
                                     | Some src \<Rightarrow> if src = [] then [] else [src])
                           (find_all_tags [''img''] soup));
          title = (case find_all_tags [''title''] soup of
                     [] \<Rightarrow> Some ''No Title''
                   | t # ts \<Rightarrow> node_string t)
      in case join_all e url srcs of
           Inl err \<Rightarrow> Inl err
         | Inr images \<Rightarrow>
             Inr \<lparr>row_url = url, row_content = text_content, row_title = title,
                  row_images = py_join '','' images\<rparr>)"

text \<open>\<open>INSERT OR REPLACE\<close>: the row of the same URL goes, the new row is added.\<close>

definition insert_or_replace :: "page_row \<Rightarrow> page_row list \<Rightarrow> page_row list" where
  "insert_or_replace row rows = filter (\<lambda>r. row_url r \<noteq> row_url row) rows @ [row]"

text \<open>
  One call of \<open>crawl_page\<close>, from its guard to the point where it has handed its
  links to the thread pool. The calls it submits run in other threads, at the same
  time as each other; they are returned as the list of the \<open>(link, depth)\<close>
  arguments and are not run here. \<open>n\<close> numbers the request. The outcome tells where
  the call ended: at the guard, at the \<open>RequestException\<close> handler, at the handler
  of any other exception, or at the end of the \<open>try\<close> block.
\<close>

datatype outcome = Skipped | FetchFailed | Crashed | Crawled "(string \<times> int) list"

definition crawl_page :: "env \<Rightarrow> nat \<Rightarrow> service \<Rightarrow> string \<Rightarrow> int \<Rightarrow> outcome \<times> service" where
  "crawl_page e n svc url current_depth =
     (if current_depth > depth_limit svc \<or> \<not> is_valid_url e svc url then (Skipped, svc)
      else
        (case response_body (http_get e n url) of
           None \<Rightarrow> (FetchFailed, svc)
         | Some body \<Rightarrow>
             (let soup = html_parser e body in
              case extract_content e url soup of
                Inl err \<Rightarrow> (Crashed, svc)
              | Inr page_data \<Rightarrow>
                  (let svc1 = svc\<lparr>web_pages := insert_or_replace page_data (web_pages svc)\<rparr>;
                       svc2 = svc1\<lparr>visited_urls := insert url (visited_urls svc1)\<rparr>
                   in if current_depth < depth_limit svc2 then
                        (case join_all e url (anchor_hrefs soup) of
                           Inl err \<Rightarrow> (Crashed, svc2)
                         | Inr links \<Rightarrow>
                             (Crawled (map (\<lambda>link. (link, current_depth + 1))
                                        (filter (is_valid_url e svc2) links)), svc2))
                      else (Crawled [], svc2)))))"


section \<open>Both crawlers: claims\<close>

lemma crawl_step_at_limit:
  assumes q: "queue st = (u, max_depth st) # rest" and nv: "u \<notin> visited st"
    and sl: "sleep e (delay st) = None"
  shows "\<exists>st' evs. crawl_step e st = Inr st' \<and> queue st' = rest \<and>
           trace st' = trace st @ Crawling u (max_depth st) # Request u # evs \<and>
           (\<forall>l k. Enqueue l k \<notin> set evs) \<and>
           (\<forall>body content.
              response_body (http_get e (clock st) u) = Some body \<and> body \<noteq> [] \<and>
              response_body (http_get e (Suc (clock st)) u) = Some content \<and> content \<noteq> [] \<and>
              page_text e content \<noteq> [] \<longrightarrow>
              map_of (scraped_data st') u = Some (page_text e content))"
proof (cases "truthy (response_body (http_get e (clock st) u))")
  case False
  have "max_depth st \<le> max_depth st" by simp
  from crawl_step_fail[OF q nv this False sl] False show ?thesis
    by (intro exI[of _ "st\<lparr>queue := rest, visited := insert u (visited st),
          clock := Suc (clock st), trace := trace st @ [Crawling u (max_depth st), Request u]\<rparr>"]
        exI[of _ "[]"]) auto
next
  case True
  then obtain body where b: "response_body (http_get e (clock st) u) = Some body" "body \<noteq> []"
    by (cases "response_body (http_get e (clock st) u)") auto
  have "max_depth st \<le> max_depth st" by simp
  from crawl_step_ok[OF q nv this b sl]
  have s: "crawl_step e st = Inr (after_fetch e st u (max_depth st) rest)" by simp
  let ?second = "response_body (http_get e (Suc (clock st)) u)"
  let ?stored = "truthy ?second \<and> page_text e (the ?second) \<noteq> []"
  have t: "trace (after_fetch e st u (max_depth st) rest) =
      trace st @ Crawling u (max_depth st) # Request u # (Request u # (if ?stored then [Store u] else []))"
    by (simp add: after_fetch_def Let_def)
  have d: "\<forall>body content.
              response_body (http_get e (clock st) u) = Some body \<and> body \<noteq> [] \<and>
              ?second = Some content \<and> content \<noteq> [] \<and> page_text e content \<noteq> [] \<longrightarrow>
              map_of (scraped_data (after_fetch e st u (max_depth st) rest)) u =
                Some (page_text e content)"
    by (auto simp: after_fetch_def Let_def update_conv')
  show ?thesis
    using s t d
    by (intro exI[of _ "after_fetch e st u (max_depth st) rest"]
        exI[of _ "Request u # (if ?stored then [Store u] else [])"])
      (simp add: after_fetch_fields)
qed

lemma crawl_page_depth:
  assumes "crawl_page e n svc page d = (out, svc')"
  shows "(out \<noteq> Skipped \<longrightarrow> d \<le> depth_limit svc) \<and>
         (\<forall>subs. out = Crawled subs \<longrightarrow>
            (\<forall>task \<in> set subs. snd task = d + 1 \<and> snd task \<le> depth_limit svc) \<and>
            (d = depth_limit svc \<longrightarrow> subs = []) \<and>
            (\<exists>body row. response_body (http_get e n page) = Some body \<and>
               extract_content e page (html_parser e body) = Inr row \<and>
               row \<in> set (web_pages svc')))"
  using assms
  by (auto simp: crawl_page_def Let_def insert_or_replace_def
      split: if_splits option.splits sum.splits)

lemma crawl_page_stores:
  assumes "d \<le> depth_limit svc" and "is_valid_url e svc page"
    and "response_body (http_get e n page) = Some body"
    and "extract_content e page (html_parser e body) = Inr row"
  shows "\<exists>out svc'. crawl_page e n svc page d = (out, svc') \<and> out \<noteq> Skipped \<and>
           out \<noteq> FetchFailed \<and> (d = depth_limit svc \<longrightarrow> out = Crawled []) \<and>
           web_pages svc' = insert_or_replace row (web_pages svc) \<and>
           visited_urls svc' = insert page (visited_urls svc)"
  using assms by (auto simp: crawl_page_def Let_def split: sum.splits)

lemma crawl_page_beyond:
  "depth_limit svc < d \<Longrightarrow> crawl_page e n svc page d = (Skipped, svc)"
  by (simp add: crawl_page_def)

text \<open>
  Claim C3. In every state that \<open>WebScraper.crawl\<close> reaches, every task that was
  crawled and every task that was enqueued has a depth of at most the limit. A task
  whose depth equals the limit is still fetched, when \<open>time.sleep\<close> accepts the
  delay, and its page is stored when both requests return a text; the iteration
  enqueues nothing. A call of \<open>crawl_page\<close> that passes its guard has a depth of at
  most the limit, stores the page it fetched, submits calls of the next depth only,
  none beyond the limit, and none at all when its own depth equals the limit. A
  call of \<open>crawl_page\<close> whose depth equals the limit, for a valid URL whose fetch and
  extraction succeed, ends normally with the page in the table and the URL in the
  visited set, and submits nothing; a call whose depth is beyond the limit returns
  at the guard.
\<close>

theorem depth_bound_inclusive:
  assumes "init e url limit secs = Inr st0" and "reachable e st0 st"
  shows "(\<forall>ev \<in> set (trace st). event_depth_ok limit ev) \<and>
         (\<forall>u rest. queue st = (u, limit) # rest \<and> u \<notin> visited st \<and> sleep e secs = None \<longrightarrow>
            (\<exists>st' evs. crawl_step e st = Inr st' \<and> queue st' = rest \<and>
               trace st' = trace st @ Crawling u limit # Request u # evs \<and>
               (\<forall>l k. Enqueue l k \<notin> set evs) \<and>
               (\<forall>body content.
                  response_body (http_get e (clock st) u) = Some body \<and> body \<noteq> [] \<and>
                  response_body (http_get e (Suc (clock st)) u) = Some content \<and>
                  content \<noteq> [] \<and> page_text e content \<noteq> [] \<longrightarrow>
                  map_of (scraped_data st') u = Some (page_text e content)))) \<and>
         (\<forall>n svc page d out svc'. crawl_page e n svc page d = (out, svc') \<longrightarrow>
            (out \<noteq> Skipped \<longrightarrow> d \<le> depth_limit svc) \<and>
            (\<forall>subs. out = Crawled subs \<longrightarrow>
               (\<forall>task \<in> set subs. snd task = d + 1 \<and> snd task \<le> depth_limit svc) \<and>
               (d = depth_limit svc \<longrightarrow> subs = []) \<and>
               (\<exists>body row. response_body (http_get e n page) = Some body \<and>
                  extract_content e page (html_parser e body) = Inr row \<and>
                  row \<in> set (web_pages svc')))) \<and>
         (\<forall>n svc page body row.
            is_valid_url e svc page \<and> response_body (http_get e n page) = Some body \<and>
            extract_content e page (html_parser e body) = Inr row \<longrightarrow>
            (\<exists>svc'. crawl_page e n svc page (depth_limit svc) = (Crawled [], svc') \<and>
               row \<in> set (web_pages svc') \<and> page \<in> visited_urls svc')) \<and>
         (\<forall>n svc page d. depth_limit svc < d \<longrightarrow> crawl_page e n svc page d = (Skipped, svc))"
proof -
  from reachable_keeps[OF assms(2)] init_fields(5,9)[OF assms(1)]
  have m: "max_depth st = limit" "delay st = secs" by simp_all
  from depth_inv_reachable[OF assms(2) depth_inv_init[OF assms(1)]] m
  have a: "\<forall>ev \<in> set (trace st). event_depth_ok limit ev" by (simp add: depth_inv_def)
  have b: "\<forall>u rest. queue st = (u, limit) # rest \<and> u \<notin> visited st \<and> sleep e secs = None \<longrightarrow>
            (\<exists>st' evs. crawl_step e st = Inr st' \<and> queue st' = rest \<and>
               trace st' = trace st @ Crawling u limit # Request u # evs \<and>
               (\<forall>l k. Enqueue l k \<notin> set evs) \<and>
               (\<forall>body content.
                  response_body (http_get e (clock st) u) = Some body \<and> body \<noteq> [] \<and>
                  response_body (http_get e (Suc (clock st)) u) = Some content \<and>
                  content \<noteq> [] \<and> page_text e content \<noteq> [] \<longrightarrow>
                  map_of (scraped_data st') u = Some (page_text e content)))"
    using crawl_step_at_limit[of st _ _ e] m by blast
  have c: "\<exists>svc'. crawl_page e n svc page (depth_limit svc) = (Crawled [], svc') \<and>
               row \<in> set (web_pages svc') \<and> page \<in> visited_urls svc'"
    if "is_valid_url e svc page \<and> response_body (http_get e n page) = Some body \<and>
        extract_content e page (html_parser e body) = Inr row" for n svc page body row
  proof -
    have "depth_limit svc \<le> depth_limit svc" by simp
    from crawl_page_stores[OF this, of e page n body row] that
    show ?thesis by (auto simp: insert_or_replace_def)
  qed
  show ?thesis
  proof (intro conjI)
    show "\<forall>ev \<in> set (trace st). event_depth_ok limit ev" by (rule a)
    show "\<forall>u rest. queue st = (u, limit) # rest \<and> u \<notin> visited st \<and> sleep e secs = None \<longrightarrow>
            (\<exists>st' evs. crawl_step e st = Inr st' \<and> queue st' = rest \<and>
               trace st' = trace st @ Crawling u limit # Request u # evs \<and>
               (\<forall>l k. Enqueue l k \<notin> set evs) \<and>
               (\<forall>body content.
                  response_body (http_get e (clock st) u) = Some body \<and> body \<noteq> [] \<and>
                  response_body (http_get e (Suc (clock st)) u) = Some content \<and>
                  content \<noteq> [] \<and> page_text e content \<noteq> [] \<longrightarrow>
                  map_of (scraped_data st') u = Some (page_text e content)))"
      by (rule b)
    show "\<forall>n svc page d out svc'. crawl_page e n svc page d = (out, svc') \<longrightarrow>
            (out \<noteq> Skipped \<longrightarrow> d \<le> depth_limit svc) \<and>
            (\<forall>subs. out = Crawled subs \<longrightarrow>
               (\<forall>task \<in> set subs. snd task = d + 1 \<and> snd task \<le> depth_limit svc) \<and>
               (d = depth_limit svc \<longrightarrow> subs = []) \<and>
               (\<exists>body row. response_body (http_get e n page) = Some body \<and>
                  extract_content e page (html_parser e body) = Inr row \<and>
                  row \<in> set (web_pages svc')))"
      using crawl_page_depth by blast
    show "\<forall>n svc page body row.
            is_valid_url e svc page \<and> response_body (http_get e n page) = Some body \<and>
            extract_content e page (html_parser e body) = Inr row \<longrightarrow>
            (\<exists>svc'. crawl_page e n svc page (depth_limit svc) = (Crawled [], svc') \<and>
               row \<in> set (web_pages svc') \<and> page \<in> visited_urls svc')"
      using c by blast
    show "\<forall>n svc page d. depth_limit svc < d \<longrightarrow> crawl_page e n svc page d = (Skipped, svc)"
      by (simp add: crawl_page_beyond)
  qed
qed

lemma toy_http_get:
  "http_get (toy_env site pages) n url =
     (case map_of site url of Some r \<Rightarrow> r | None \<Rightarrow> RequestException)"
  by (simp add: toy_env_def)

theorem depth_bound_inclusive_witness:
  "\<exists>st0 st st' svc svc'.
     init (toy_env site1 pages1) ''http://e.com/'' 1 tenth = Inr st0 \<and>
     reachable (toy_env site1 pages1) st0 st \<and>
     queue st = (''http://e.com/a'', 1) # [(''http://e.com/a'', 1), (''http://e.com/b'', 1)] \<and>
     ''http://e.com/a'' \<notin> visited st \<and>
     sleep (toy_env site1 pages1) tenth = None \<and>
     Enqueue ''http://e.com/a'' 1 \<in> set (trace st) \<and>
     event_depth_ok 1 (Enqueue ''http://e.com/a'' 1) \<and>
     crawl_step (toy_env site1 pages1) st = Inr st' \<and>
     queue st' = [(''http://e.com/a'', 1), (''http://e.com/b'', 1)] \<and>
     Crawling ''http://e.com/a'' 1 \<in> set (trace st') \<and>
     map_of (scraped_data st') ''http://e.com/a'' = Some ''PAGE A'' \<and>
     service_init (toy_env site1 pages1) [] ''http://e.com/'' 1 = Inr svc \<and>
     crawl_page (toy_env site1 pages1) 0 svc ''http://e.com/a'' 1 = (Crawled [], svc') \<and>
     map row_content (web_pages svc') = [''PAGE A''] \<and>
     ''http://e.com/a'' \<in> visited_urls svc' \<and>
     crawl_page (toy_env site1 pages1) 0 svc ''http://e.com/a'' 2 = (Skipped, svc)"
proof -
  let ?E = "toy_env site1 pages1"
  let ?a = "''http://e.com/a''"
  let ?rest = "[(''http://e.com/a'', 1 :: int), (''http://e.com/b'', 1)]"
  let ?svc = "\<lparr>base_url = ''http://e.com/'', base_domain = ''e.com'', depth_limit = 1,
               visited_urls = {}, web_pages = []\<rparr>"
  let ?row = "\<lparr>row_url = ?a, row_content = ''PAGE A'', row_title = Some ''No Title'',
               row_images = []\<rparr>"
  have "case after_steps 1 ?E ''http://e.com/'' 1 tenth of
          Inl err \<Rightarrow> False
        | Inr st \<Rightarrow> queue st = (?a, 1) # ?rest \<and> ?a \<notin> visited st \<and>
            Enqueue ?a 1 \<in> set (trace st)"
    by code_simp
  then obtain st0 st where i: "init ?E ''http://e.com/'' 1 tenth = Inr st0"
    and s: "crawl_steps 1 ?E st0 = Inr st"
    and q: "queue st = (?a, 1) # ?rest" and nv: "?a \<notin> visited st"
    and en: "Enqueue ?a 1 \<in> set (trace st)"
    by (auto simp: after_steps_def split: sum.splits)
  have re: "reachable ?E st0 st" using crawl_steps_reachable[OF s] .
  have sl: "sleep ?E tenth = None" by (simp add: toy_env_def tenth_def)
  note T = depth_bound_inclusive[OF i re]
  note Ta = T[THEN conjunct1] and Tb = T[THEN conjunct2, THEN conjunct1]
    and Td = T[THEN conjunct2, THEN conjunct2, THEN conjunct2, THEN conjunct1]
    and Te = T[THEN conjunct2, THEN conjunct2, THEN conjunct2, THEN conjunct2]
  from Ta en have ok: "event_depth_ok 1 (Enqueue ?a 1)" by blast
  from Tb q nv sl obtain st' evs where st': "crawl_step ?E st = Inr st'" "queue st' = ?rest"
    "trace st' = trace st @ Crawling ?a 1 # Request ?a # evs"
    and stored: "\<forall>body content.
       response_body (http_get ?E (clock st) ?a) = Some body \<and> body \<noteq> [] \<and>
       response_body (http_get ?E (Suc (clock st)) ?a) = Some content \<and>
       content \<noteq> [] \<and> page_text ?E content \<noteq> [] \<longrightarrow>
       map_of (scraped_data st') ?a = Some (page_text ?E content)"
    by blast
  have r: "response_body (http_get ?E n ?a) = Some ''PAGE A''" for n
    by (simp add: toy_http_get site1_def)
  have p: "page_text ?E ''PAGE A'' = ''PAGE A''" by code_simp
  from stored r p have sd: "map_of (scraped_data st') ?a = Some ''PAGE A''" by force
  have v: "service_init ?E [] ''http://e.com/'' 1 = Inr ?svc" by code_simp
  have iv: "is_valid_url ?E ?svc ?a" by code_simp
  have ex: "extract_content ?E ?a (html_parser ?E ''PAGE A'') = Inr ?row" by code_simp
  from Td iv r[of 0] ex obtain svc' where
    c1: "crawl_page ?E 0 ?svc ?a (depth_limit ?svc) = (Crawled [], svc')"
    and c2: "?row \<in> set (web_pages svc')" "?a \<in> visited_urls svc'"
    by blast
  from c1 have c1': "crawl_page ?E 0 ?svc ?a 1 = (Crawled [], svc')" by simp
  from c1 iv r[of 0] ex have w: "web_pages svc' = [?row]"
    by (auto simp: crawl_page_def Let_def insert_or_replace_def)
  have "depth_limit ?svc < 2" by simp
  with Te have c3: "crawl_page ?E 0 ?svc ?a 2 = (Skipped, ?svc)" by blast
  from i re q nv sl en ok st' sd v c1' w c2 c3 show ?thesis
    by (intro exI[of _ st0] exI[of _ st] exI[of _ st'] exI[of _ ?svc] exI[of _ svc']) simp
qed

























lemma is_valid_url_iff:
  "is_valid_url e svc l =
     ((\<exists>p. urlparse e l = Some p \<and> (scheme p = ''http'' \<or> scheme p = ''https'') \<and>
           netloc p = base_domain svc) \<and> l \<notin> visited_urls svc)"
  by (auto simp: is_valid_url_def split: option.splits)

lemma crawl_page_scope:
  assumes "crawl_page e n svc page d = (out, svc')"
  shows "(out \<noteq> Skipped \<longrightarrow> is_valid_url e svc page) \<and>
         (\<forall>subs. out = Crawled subs \<longrightarrow> (\<forall>task \<in> set subs. is_valid_url e svc' (fst task)))"
  using assms
  by (auto simp: crawl_page_def Let_def split: if_splits option.splits sum.splits)

text \<open>
  A third site: a page with a link of another scheme on the seed's netloc, a link to
  the seed's host with its port, and a link to a subdomain.
\<close>

definition site3 :: "(string \<times> http_result) list" where
  "site3 = [(''http://e.com/'', Response 200 ''HOME'')]"

definition pages3 :: "(string \<times> node) list" where
  "pages3 = [(''HOME'', Tag ''[document]'' []
               [Tag ''a'' [(''href'', ''ftp://e.com/x'')] [Str NavigableString ''files''],
                Tag ''a'' [(''href'', ''http://e.com:80/a'')] [Str NavigableString ''port''],
                Tag ''a'' [(''href'', ''http://www.e.com/a'')] [Str NavigableString ''www'']])]"

text \<open>
  Claim C6, as amended. The crawl domain of \<open>WebScraper\<close> is the netloc of the
  seed, the host with the port when the URL has one; in every state that its crawl
  reaches, every task of the queue and every URL that was enqueued, crawled,
  requested or stored has exactly that netloc. \<open>_extract_links\<close> keeps a link if
  and only if its netloc is the crawl domain and it is not in the visited set; it
  does not look at the scheme. \<open>is_valid_url\<close> accepts a URL if and only if its
  scheme is http or https, its netloc equals the base domain, the netloc of the base
  URL, and it is not in the visited set; a call of \<open>crawl_page\<close> that passes its
  guard is for a URL that \<open>is_valid_url\<close> accepts, and so is every call it submits.
\<close>

theorem domain_scope:
  assumes "init e url limit secs = Inr st0" and "reachable e st0 st"
  shows "(\<exists>p. urlparse e url = Some p \<and> domain st = netloc p) \<and>
         (\<forall>task \<in> set (queue st). on_domain e (domain st) (fst task)) \<and>
         (\<forall>ev \<in> set (trace st). on_domain e (domain st) (event_url ev)) \<and>
         (\<forall>html cur links. extract_links e st html cur = Inr links \<longrightarrow>
            links = filter (\<lambda>l. on_domain e (domain st) l \<and> l \<notin> visited st)
                      (joins e cur (anchor_hrefs (html_parser e html)))) \<and>
         (\<forall>svc l. is_valid_url e svc l =
            ((\<exists>p. urlparse e l = Some p \<and> (scheme p = ''http'' \<or> scheme p = ''https'') \<and>
                  netloc p = base_domain svc) \<and> l \<notin> visited_urls svc)) \<and>
         (\<forall>rows k svc. service_init e rows url k = Inr svc \<longrightarrow>
            (\<exists>p. urlparse e url = Some p \<and> base_domain svc = netloc p)) \<and>
         (\<forall>n svc page d out svc'. crawl_page e n svc page d = (out, svc') \<longrightarrow>
            (out \<noteq> Skipped \<longrightarrow> is_valid_url e svc page) \<and>
            (\<forall>subs. out = Crawled subs \<longrightarrow>
               (\<forall>task \<in> set subs. is_valid_url e svc' (fst task))))"
proof (intro conjI)
  from reachable_keeps[OF assms(2)] have d: "domain st = domain st0" by simp
  from init_fields(8)[OF assms(1)] d
  show "\<exists>p. urlparse e url = Some p \<and> domain st = netloc p" by simp
  from scope_inv_reachable[OF assms(2) scope_inv_init[OF assms(1)]]
  show "\<forall>task \<in> set (queue st). on_domain e (domain st) (fst task)"
    and "\<forall>ev \<in> set (trace st). on_domain e (domain st) (event_url ev)"
    by (simp_all add: scope_inv_def)
  show "\<forall>html cur links. extract_links e st html cur = Inr links \<longrightarrow>
            links = filter (\<lambda>l. on_domain e (domain st) l \<and> l \<notin> visited st)
                      (joins e cur (anchor_hrefs (html_parser e html)))"
    using extract_links_exact by blast
  show "\<forall>svc l. is_valid_url e svc l =
            ((\<exists>p. urlparse e l = Some p \<and> (scheme p = ''http'' \<or> scheme p = ''https'') \<and>
                  netloc p = base_domain svc) \<and> l \<notin> visited_urls svc)"
    using is_valid_url_iff by blast
  show "\<forall>rows k svc. service_init e rows url k = Inr svc \<longrightarrow>
            (\<exists>p. urlparse e url = Some p \<and> base_domain svc = netloc p)"
    by (auto simp: service_init_def split: option.splits)
  show "\<forall>n svc page d out svc'. crawl_page e n svc page d = (out, svc') \<longrightarrow>
            (out \<noteq> Skipped \<longrightarrow> is_valid_url e svc page) \<and>
            (\<forall>subs. out = Crawled subs \<longrightarrow>
               (\<forall>task \<in> set subs. is_valid_url e svc' (fst task)))"
    using crawl_page_scope by blast
qed

theorem domain_scope_witness:
  "\<exists>st0 st svc links.
     init (toy_env site3 pages3) ''http://e.com/'' 1 tenth = Inr st0 \<and>
     reachable (toy_env site3 pages3) st0 st \<and>
     domain st = ''e.com'' \<and>
     queue st = [(''ftp://e.com/x'', 1)] \<and>
     on_domain (toy_env site3 pages3) (domain st) ''ftp://e.com/x'' \<and>
     \<not> on_domain (toy_env site3 pages3) (domain st) ''http://e.com:80/a'' \<and>
     \<not> on_domain (toy_env site3 pages3) (domain st) ''http://www.e.com/a'' \<and>
     Enqueue ''http://www.e.com/a'' 1 \<notin> set (trace st) \<and>
     extract_links (toy_env site3 pages3) st ''HOME'' ''http://e.com/'' = Inr links \<and>
     links = [''ftp://e.com/x''] \<and>
     service_init (toy_env site3 pages3) [] ''http://e.com/'' 1 = Inr svc \<and>
     base_domain svc = ''e.com'' \<and>
     is_valid_url (toy_env site3 pages3) svc ''http://e.com/a'' \<and>
     \<not> is_valid_url (toy_env site3 pages3) svc ''ftp://e.com/x'' \<and>
     \<not> is_valid_url (toy_env site3 pages3) svc ''http://www.e.com/a'' \<and>
     fst (crawl_page (toy_env site3 pages3) 0 svc ''ftp://e.com/x'' 0) = Skipped"
proof -
  let ?E = "toy_env site3 pages3"
  let ?s = "''http://e.com/''"
  let ?svc = "\<lparr>base_url = ?s, base_domain = ''e.com'', depth_limit = 1,
               visited_urls = {}, web_pages = []\<rparr>"
  have "case after_steps 1 ?E ?s 1 tenth of
          Inl err \<Rightarrow> False
        | Inr st \<Rightarrow> domain st = ''e.com'' \<and> queue st = [(''ftp://e.com/x'', 1)] \<and>
            visited st = {?s}"
    by code_simp
  then obtain st0 st where i: "init ?E ?s 1 tenth = Inr st0"
    and s: "crawl_steps 1 ?E st0 = Inr st"
    and d: "domain st = ''e.com''" and q: "queue st = [(''ftp://e.com/x'', 1)]"
    and v: "visited st = {?s}"
    by (auto simp: after_steps_def split: sum.splits)
  have re: "reachable ?E st0 st" using crawl_steps_reachable[OF s] .
  note T = domain_scope[OF i re]
  note T2 = T[THEN conjunct2, THEN conjunct1]
    and T3 = T[THEN conjunct2, THEN conjunct2, THEN conjunct1]
    and T4 = T[THEN conjunct2, THEN conjunct2, THEN conjunct2, THEN conjunct1]
    and T5 = T[THEN conjunct2, THEN conjunct2, THEN conjunct2, THEN conjunct2, THEN conjunct1]
    and T6 = T[THEN conjunct2, THEN conjunct2, THEN conjunct2, THEN conjunct2, THEN conjunct2,
      THEN conjunct1]
    and T7 = T[THEN conjunct2, THEN conjunct2, THEN conjunct2, THEN conjunct2, THEN conjunct2,
      THEN conjunct2]
  from T2 q d have on: "on_domain ?E (domain st) ''ftp://e.com/x''" by simp
  have port: "\<not> on_domain ?E ''e.com'' ''http://e.com:80/a''"
    by (simp add: on_domain_def toy_env_def toy_urlparse_def)
  have sub: "\<not> on_domain ?E ''e.com'' ''http://www.e.com/a''"
    by (simp add: on_domain_def toy_env_def toy_urlparse_def)
  have ne: "Enqueue ''http://www.e.com/a'' 1 \<notin> set (trace st)"
  proof
    assume "Enqueue ''http://www.e.com/a'' 1 \<in> set (trace st)"
    with T3 have "on_domain ?E (domain st) (event_url (Enqueue ''http://www.e.com/a'' 1))"
      by blast
    with sub d show False by simp
  qed
  have j: "joins ?E ?s (anchor_hrefs (html_parser ?E ''HOME'')) =
      [''ftp://e.com/x'', ''http://e.com:80/a'', ''http://www.e.com/a'']"
    by code_simp
  have hs: "anchor_hrefs (html_parser ?E ''HOME'') =
      [''ftp://e.com/x'', ''http://e.com:80/a'', ''http://www.e.com/a'']"
    by code_simp
  have ok: "\<forall>href \<in> set (anchor_hrefs (html_parser ?E ''HOME'')).
      \<exists>l p. urljoin ?E ?s href = Some l \<and> urlparse ?E l = Some p"
    unfolding hs by (simp add: toy_env_def toy_urljoin_def toy_urlparse_def)
  from extract_links_returns[OF ok, of st] obtain links where
    x: "extract_links ?E st ''HOME'' ?s = Inr links"
    by blast
  from T4 x have "links = filter (\<lambda>l. on_domain ?E (domain st) l \<and> l \<notin> visited st)
      (joins ?E ?s (anchor_hrefs (html_parser ?E ''HOME'')))"
    by blast
  with on port sub d v have l: "links = [''ftp://e.com/x'']" by (simp add: j)
  have sv: "service_init ?E [] ?s 1 = Inr ?svc" by code_simp
  from T5 have iv: "is_valid_url ?E ?svc l =
      ((\<exists>p. urlparse ?E l = Some p \<and> (scheme p = ''http'' \<or> scheme p = ''https'') \<and>
            netloc p = base_domain ?svc) \<and> l \<notin> visited_urls ?svc)" for l
    by blast
  have v1: "is_valid_url ?E ?svc ''http://e.com/a''"
    unfolding iv by (simp add: toy_env_def toy_urlparse_def)
  have v2: "\<not> is_valid_url ?E ?svc ''ftp://e.com/x''"
    unfolding iv by (simp add: toy_env_def toy_urlparse_def)
  have v3: "\<not> is_valid_url ?E ?svc ''http://www.e.com/a''"
    unfolding iv by (simp add: toy_env_def toy_urlparse_def)
  obtain out svc' where c: "crawl_page ?E 0 ?svc ''ftp://e.com/x'' 0 = (out, svc')"
    by (cases "crawl_page ?E 0 ?svc ''ftp://e.com/x'' 0") auto
  with T7 v2 have "out = Skipped" by blast
  with c have sk: "fst (crawl_page ?E 0 ?svc ''ftp://e.com/x'' 0) = Skipped" by simp
  from i re d q on port sub ne x l sv v1 v2 v3 sk show ?thesis
    by (intro exI[of _ st0] exI[of _ st] exI[of _ ?svc] exI[of _ links]) simp
qed

text \<open>
  Claim C6 as stated fails. \<open>WebScraper\<close> has no test of the scheme: the link
  \<open>ftp://e.com/x\<close> of the seed page is enqueued, crawled and requested. And
  \<open>is_valid_url\<close> compares the netloc, not the host: it rejects
  \<open>http://e.com:80/a\<close>, a URL with scheme http on the host of the base URL that is
  not in the visited set.
\<close>

theorem ftp_link_crawled_counterexample:
  "map_sum id trace (run (toy_env site3 pages3) ''http://e.com/'' 1 tenth) =
     Inr [Crawling ''http://e.com/'' 0, Request ''http://e.com/'', Request ''http://e.com/'',
          Store ''http://e.com/'', Enqueue ''ftp://e.com/x'' 1,
          Crawling ''ftp://e.com/x'' 1, Request ''ftp://e.com/x''] \<and>
   map_sum id (\<lambda>svc. (base_domain svc, visited_urls svc,
                       is_valid_url (toy_env site3 pages3) svc ''http://e.com:80/a''))
     (service_init (toy_env site3 pages3) [] ''http://e.com/'' 1) =
     Inr (''e.com'', {}, False) \<and>
   toy_urlparse ''http://e.com:80/a'' =
     Some \<lparr>scheme = ''http'', netloc = ''e.com:80'', path = ''/a''\<rparr>"
  by code_simp







end
